theory Spec2Isabelle
  imports Complex_Main
begin

section \<open>Arrays and errors\<close>

text \<open>
  The notebook \<^verbatim>\<open>SurfaceWaveDispersion.ipynb\<close> works on numpy arrays of double-precision
  numbers. A one-dimensional array is a \<open>real list\<close>, a two-dimensional array is the list of
  its rows, together with its column count where the shape decides the outcome.

  Where the rounding of double-precision arithmetic decides what the program computes (the
  quotient that gives the group velocity, the standard deviation of a trace and the
  division by it), the operations are those of binary64 with rounding to nearest, ties to
  even; see the section on double-precision arithmetic. Elsewhere (index searches, the
  lag filter, the scaling of the power spectrum) the numbers are treated as exact reals.

  Python and numpy signal failures in two ways, and both become values of \<open>error\<close>.
  An exception (\<open>ValueError\<close>, \<open>IndexError\<close>, \<open>ZeroDivisionError\<close>) aborts the cell.
  A numpy floating-point condition does not raise: numpy warns and stores \<open>inf\<close> or
  \<open>nan\<close>. The reals have no such values, so the model stops at the first such condition
  and reports it: \<open>FloatingPointError\<close> for a division by zero or an invalid operation,
  \<open>FloatingPointOverflow\<close> for a result beyond the largest double.
\<close>

datatype error = ValueError | IndexError | ZeroDivisionError | FloatingPointError
  | FloatingPointOverflow

text \<open>\<open>c / xs\<close> for a scalar \<open>c\<close> and an array \<open>xs\<close>, over the reals.\<close>

definition np_scalar_div :: "real \<Rightarrow> real list \<Rightarrow> error + real list" where
  "np_scalar_div c xs =
     (if 0 \<in> set xs then Inl FloatingPointError else Inr (map (\<lambda>x. c / x) xs))"

text \<open>\<open>xs / c\<close> for an array \<open>xs\<close> and a scalar \<open>c\<close>, over the reals.\<close>

definition np_div_scalar :: "real list \<Rightarrow> real \<Rightarrow> error + real list" where
  "np_div_scalar xs c =
     (if c = 0 \<and> xs \<noteq> [] then Inl FloatingPointError else Inr (map (\<lambda>x. x / c) xs))"

text \<open>Division of two Python floats raises on a zero divisor.\<close>

definition py_float_div :: "real \<Rightarrow> real \<Rightarrow> error + real" where
  "py_float_div a b = (if b = 0 then Inl ZeroDivisionError else Inr (a / b))"

text \<open>The mean of an array over the reals; on an empty array it divides zero by zero.\<close>

definition np_mean :: "real list \<Rightarrow> error + real" where
  "np_mean xs =
     (if xs = [] then Inl FloatingPointError else Inr (sum_list xs / real (length xs)))"

text \<open>
  \<open>np.argmax\<close> and \<open>np.argmin\<close> return the index of the first occurrence of the
  extremum and raise \<open>ValueError\<close> on an empty array.
\<close>

fun argmax_list :: "real list \<Rightarrow> nat" where
  "argmax_list [] = 0"
| "argmax_list [x] = 0"
| "argmax_list (x # y # ys) =
     (let j = argmax_list (y # ys) in if (y # ys) ! j \<le> x then 0 else Suc j)"

fun argmin_list :: "real list \<Rightarrow> nat" where
  "argmin_list [] = 0"
| "argmin_list [x] = 0"
| "argmin_list (x # y # ys) =
     (let j = argmin_list (y # ys) in if x \<le> (y # ys) ! j then 0 else Suc j)"

definition np_argmax :: "real list \<Rightarrow> error + nat" where
  "np_argmax xs = (if xs = [] then Inl ValueError else Inr (argmax_list xs))"

definition np_argmin :: "real list \<Rightarrow> error + nat" where
  "np_argmin xs = (if xs = [] then Inl ValueError else Inr (argmin_list xs))"

text \<open>
  A two-dimensional array with its column count (a numpy array with no rows still has
  one). In a numpy array every row has \<open>ncols\<close> entries.
\<close>

record array2d =
  ncols :: nat
  rows :: "real list list"

text \<open>\<open>a[:, lo:hi]\<close>: a slice is clipped to the array, never out of range.\<close>

definition slice_cols :: "array2d \<Rightarrow> nat \<Rightarrow> nat \<Rightarrow> array2d" where
  "slice_cols a lo hi =
     \<lparr>ncols = min hi (ncols a) - lo, rows = map (\<lambda>row. take (hi - lo) (drop lo row)) (rows a)\<rparr>"

text \<open>
  \<open>np.argmax(a, axis=1)\<close> and \<open>np.amax(a, axis=1)\<close>: one result per row; both raise
  \<open>ValueError\<close> when the reduced axis is empty.
\<close>

definition argmax_axis1 :: "array2d \<Rightarrow> error + nat list" where
  "argmax_axis1 a = (if ncols a = 0 then Inl ValueError else Inr (map argmax_list (rows a)))"

definition amax_axis1 :: "array2d \<Rightarrow> error + real list" where
  "amax_axis1 a =
     (if ncols a = 0 then Inl ValueError else Inr (map (\<lambda>row. row ! argmax_list row) (rows a)))"

text \<open>\<open>np.where(xs > c)[0]\<close>: the indices, in increasing order, of the entries above \<open>c\<close>.\<close>

definition where_gt :: "real list \<Rightarrow> real \<Rightarrow> nat list" where
  "where_gt xs c = filter (\<lambda>i. c < xs ! i) [0..<length xs]"

text \<open>\<open>xs[idx]\<close> for an index array: \<open>IndexError\<close> when an index is out of bounds.\<close>

definition take_idx :: "real list \<Rightarrow> nat list \<Rightarrow> error + real list" where
  "take_idx xs idx =
     (if \<forall>i \<in> set idx. i < length xs then Inr (map (\<lambda>i. xs ! i) idx) else Inl IndexError)"

text \<open>\<open>a[:, idx]\<close>: the same selection in every row.\<close>

fun take_cols :: "real list list \<Rightarrow> nat list \<Rightarrow> error + real list list" where
  "take_cols [] idx = Inr []"
| "take_cols (row # rws) idx =
     (case take_idx row idx of
        Inl e \<Rightarrow> Inl e
      | Inr r \<Rightarrow> (case take_cols rws idx of Inl e \<Rightarrow> Inl e | Inr rs \<Rightarrow> Inr (r # rs)))"

text \<open>
  \<open>a /= col[:, None]\<close>: row \<open>i\<close> of \<open>a\<close> is divided by \<open>col[i]\<close>. The column must have
  one entry per row, or a single entry that is then used for every row; any other length
  cannot be broadcast and raises \<open>ValueError\<close>.
\<close>

fun div_rows :: "real list list \<Rightarrow> real list \<Rightarrow> error + real list list" where
  "div_rows [] [] = Inr []"
| "div_rows (row # rws) (s # ss) =
     (case np_div_scalar row s of
        Inl e \<Rightarrow> Inl e
      | Inr r \<Rightarrow> (case div_rows rws ss of Inl e \<Rightarrow> Inl e | Inr rs \<Rightarrow> Inr (r # rs)))"
| "div_rows _ _ = Inl ValueError"

definition div_by_column :: "real list list \<Rightarrow> real list \<Rightarrow> error + real list list" where
  "div_by_column a col =
     (if length col = length a then div_rows a col
      else if length col = 1 then div_rows a (replicate (length a) (hd col))
      else Inl ValueError)"

text \<open>
  \<open>a[i, :] = v\<close>: the row index must exist; \<open>v\<close> must have the row's length, or a single
  entry that is then repeated.
\<close>

definition set_row :: "real list list \<Rightarrow> nat \<Rightarrow> real list \<Rightarrow> error + real list list" where
  "set_row a i v =
     (if \<not> i < length a then Inl IndexError
      else if length v = length (a ! i) then Inr (a[i := v])
      else if length v = 1 then Inr (a[i := replicate (length (a ! i)) (hd v)])
      else Inl ValueError)"

section \<open>Double-precision arithmetic\<close>

text \<open>
  A double is a real number of the form \<open>m * 2 ^ e\<close> with \<open>\<bar>m\<bar> < 2 ^ 53\<close> and
  \<open>- 1074 \<le> e \<le> 971\<close>. Every arithmetic operation of binary64 returns the exact result
  rounded to the nearest double, ties going to the even mantissa. \<open>binade x\<close> is the
  exponent of the binade of \<open>x\<close> (not below that of the smallest normal number, so that
  small results round on the grid of the subnormal numbers), \<open>ulp_of x\<close> the spacing of
  the doubles there, and \<open>fl x\<close> the rounded value. A rounded value beyond the largest
  double \<open>f64_max\<close> is an overflow; underflow is gradual and silent, as in numpy.
\<close>

definition pow2 :: "int \<Rightarrow> real" where
  "pow2 e = (if 0 \<le> e then 2 ^ nat e else 1 / 2 ^ nat (- e))"

definition round_half_even :: "real \<Rightarrow> int" where
  "round_half_even y =
     (let n = \<lfloor>y\<rfloor>; r = y - of_int n
      in if r < 1 / 2 then n else if 1 / 2 < r then n + 1 else if even n then n else n + 1)"

definition binade :: "real \<Rightarrow> int" where
  "binade x = max \<lfloor>log 2 \<bar>x\<bar>\<rfloor> (- 1022)"

definition ulp_of :: "real \<Rightarrow> real" where
  "ulp_of x = pow2 (binade x - 52)"

definition fl :: "real \<Rightarrow> real" where
  "fl x = (if x = 0 then 0 else of_int (round_half_even (x / ulp_of x)) * ulp_of x)"

definition f64_max :: real where
  "f64_max = (2 - 1 / 2 ^ 52) * 2 ^ 1023"

definition f64_round :: "real \<Rightarrow> error + real" where
  "f64_round x = (if f64_max < \<bar>fl x\<bar> then Inl FloatingPointOverflow else Inr (fl x))"

definition f64_add :: "real \<Rightarrow> real \<Rightarrow> error + real" where
  "f64_add a b = f64_round (a + b)"

definition f64_sub :: "real \<Rightarrow> real \<Rightarrow> error + real" where
  "f64_sub a b = f64_round (a - b)"

definition f64_mul :: "real \<Rightarrow> real \<Rightarrow> error + real" where
  "f64_mul a b = f64_round (a * b)"

definition f64_div :: "real \<Rightarrow> real \<Rightarrow> error + real" where
  "f64_div a b = (if b = 0 then Inl FloatingPointError else f64_round (a / b))"

definition f64_sqrt :: "real \<Rightarrow> error + real" where
  "f64_sqrt a = (if a < 0 then Inl FloatingPointError else f64_round (sqrt a))"

text \<open>Sequencing of computations that may stop with an error.\<close>

definition then_do :: "error + 'a \<Rightarrow> ('a \<Rightarrow> error + 'b) \<Rightarrow> error + 'b" where
  "then_do m f = (case m of Inl e \<Rightarrow> Inl e | Inr x \<Rightarrow> f x)"

text \<open>An elementwise operation on an array: the results in order, or the first error.\<close>

fun collect :: "(error + 'a) list \<Rightarrow> error + 'a list" where
  "collect [] = Inr []"
| "collect (Inl e # rs) = Inl e"
| "collect (Inr x # rs) = (case collect rs of Inl e \<Rightarrow> Inl e | Inr xs \<Rightarrow> Inr (x # xs))"

text \<open>\<open>xs / c\<close> for an array \<open>xs\<close> of doubles and a double \<open>c\<close>.\<close>

definition f64_array_div :: "real list \<Rightarrow> real \<Rightarrow> error + real list" where
  "f64_array_div xs c = collect (map (\<lambda>x. f64_div x c) xs)"

text \<open>
  The sum of a contiguous array of doubles (\<open>np.add.reduce\<close>) is numpy's pairwise
  summation: fewer than 8 numbers are added from left to right; up to 128 numbers are
  added in eight interleaved lanes, the lanes are combined as a balanced tree and the
  numbers left over are added one by one; a longer array is cut in two near its middle,
  at a multiple of 8, and the sums of the two parts are added.
\<close>

fun sum_seq :: "real \<Rightarrow> real list \<Rightarrow> error + real" where
  "sum_seq res [] = Inr res"
| "sum_seq res (x # xs) = then_do (f64_add res x) (\<lambda>r. sum_seq r xs)"

fun add_lanes :: "real list \<Rightarrow> real list \<Rightarrow> error + real list" where
  "add_lanes (r # rs) (x # xs) =
     then_do (f64_add r x) (\<lambda>y. then_do (add_lanes rs xs) (\<lambda>ys. Inr (y # ys)))"
| "add_lanes rs xs = Inr []"

function lanes_loop :: "real list \<Rightarrow> real list \<Rightarrow> error + (real list \<times> real list)" where
  "lanes_loop r xs =
     (if 8 \<le> length xs
      then then_do (add_lanes r (take 8 xs)) (\<lambda>r'. lanes_loop r' (drop 8 xs))
      else Inr (r, xs))"
  by pat_completeness auto
termination
  by (relation "measure (\<lambda>(r, xs). length xs)") auto

definition sum_lanes :: "real list \<Rightarrow> error + real" where
  "sum_lanes r =
     then_do (f64_add (r ! 0) (r ! 1)) (\<lambda>s01.
     then_do (f64_add (r ! 2) (r ! 3)) (\<lambda>s23.
     then_do (f64_add (r ! 4) (r ! 5)) (\<lambda>s45.
     then_do (f64_add (r ! 6) (r ! 7)) (\<lambda>s67.
     then_do (f64_add s01 s23) (\<lambda>s0123.
     then_do (f64_add s45 s67) (\<lambda>s4567.
       f64_add s0123 s4567))))))"

function pairwise_sum :: "real list \<Rightarrow> error + real" where
  "pairwise_sum a =
     (if length a < 8 then sum_seq 0 a
      else if length a \<le> 128 then
        then_do (lanes_loop (take 8 a) (drop 8 a)) (\<lambda>(r, rest).
        then_do (sum_lanes r) (\<lambda>res. sum_seq res rest))
      else
        then_do (pairwise_sum (take (length a div 2 - length a div 2 mod 8) a)) (\<lambda>s1.
        then_do (pairwise_sum (drop (length a div 2 - length a div 2 mod 8) a)) (\<lambda>s2.
          f64_add s1 s2)))"
  by pat_completeness auto
termination
  by (relation "measure length") auto

text \<open>
  \<^verbatim>\<open>mydata.std()\<close>, as numpy computes it: the mean is the sum divided by the number of
  samples, the deviations from it are squared, and the result is the square root of the sum
  of the squares divided by the number of samples, every step rounded. On an empty array
  the mean is zero divided by zero.
\<close>

definition np_std :: "real list \<Rightarrow> error + real" where
  "np_std arr =
     then_do (pairwise_sum arr) (\<lambda>s.
     then_do (f64_div s (real (length arr))) (\<lambda>arrmean.
     then_do (collect (map (\<lambda>a. f64_sub a arrmean) arr)) (\<lambda>x.
     then_do (collect (map (\<lambda>y. f64_mul y y) x)) (\<lambda>x2.
     then_do (pairwise_sum x2) (\<lambda>s2.
     then_do (f64_div s2 (real (length arr))) (\<lambda>ret.
       f64_sqrt ret))))))"

section \<open>Traces, streams and the object store\<close>

text \<open>
  A trace is a uniformly sampled time series: its samples, its sample interval and its
  start time; its length \<open>npts\<close> is the number of samples. A stream is the list of the
  traces of one receiver (components Z, R, T).

  Streams are mutable objects. \<^verbatim>\<open>st.copy()\<close> makes a deep copy, a new object, and
  \<^verbatim>\<open>st_temp.filter(...)\<close> overwrites the samples of every trace of the object it is
  called on. The store is the list of all stream objects; a reference is an index into it.
\<close>

record trace =
  tr_data :: "real list"
  tr_delta :: real
  tr_start :: real

definition npts :: "trace \<Rightarrow> nat" where
  "npts tr = length (tr_data tr)"

type_synonym stream = "trace list"
type_synonym heap = "stream list"

text \<open>
  The band-pass filter, the envelope, the wavelet transform and the cross-correlation are
  routines of the signal-processing libraries the notebook imports. The loops below take
  the filter, the envelope and the correlation as parameters: the filter gets the two
  corner frequencies, the trace's sample interval and its samples, and either raises or
  returns the filtered samples.
\<close>

type_synonym bandpass_fun = "real \<Rightarrow> real \<Rightarrow> real \<Rightarrow> real list \<Rightarrow> error + real list"
type_synonym correlate_fun = "real list \<Rightarrow> real list \<Rightarrow> nat \<Rightarrow> error + real list"

text \<open>
  \<^verbatim>\<open>st.copy()\<close>: a new object at a fresh reference, holding the same traces. The
  reference copied from is one of the store (\<open>r < length h\<close>), as a Python name always is.
\<close>

definition stream_copy :: "nat \<Rightarrow> heap \<Rightarrow> nat \<times> heap" where
  "stream_copy r h = (length h, h @ [h ! r])"

text \<open>
  \<^verbatim>\<open>st.filter("bandpass", freqmin=..., freqmax=..., corners=4, zerophase=True)\<close>
  filters the traces one after the other, in place. When the filter raises on a trace, the
  traces before it stay filtered.
\<close>

fun filter_traces ::
  "bandpass_fun \<Rightarrow> real \<Rightarrow> real \<Rightarrow> trace list \<Rightarrow> error option \<times> trace list" where
  "filter_traces bp freqmin freqmax [] = (None, [])"
| "filter_traces bp freqmin freqmax (tr # trs) =
     (case bp freqmin freqmax (tr_delta tr) (tr_data tr) of
        Inl e \<Rightarrow> (Some e, tr # trs)
      | Inr d \<Rightarrow>
          (case filter_traces bp freqmin freqmax trs of
             (eo, trs') \<Rightarrow> (eo, tr\<lparr>tr_data := d\<rparr> # trs')))"

definition stream_filter ::
  "bandpass_fun \<Rightarrow> real \<Rightarrow> real \<Rightarrow> nat \<Rightarrow> heap \<Rightarrow> error option \<times> heap" where
  "stream_filter bp freqmin freqmax a h =
     (case filter_traces bp freqmin freqmax (h ! a) of (eo, s) \<Rightarrow> (eo, h[a := s]))"

text \<open>\<^verbatim>\<open>st[i]\<close>: \<open>IndexError\<close> when the stream has no such trace.\<close>

definition trace_at :: "stream \<Rightarrow> nat \<Rightarrow> error + trace" where
  "trace_at s i = (if i < length s then Inr (s ! i) else Inl IndexError)"

section \<open>Band-limited envelope picker\<close>

text \<open>
  \<^verbatim>\<open>
  pickedArrival = np.zeros((nper,))
  for i, T in enumerate(myPeriods):
      st_temp = st.copy()
      st_temp.filter("bandpass", freqmin=0.85 / T, freqmax=1.15 / T, corners=4, zerophase=True)
      data_envelope = obspy.signal.filter.envelope(st_temp[iZRT].data)
      idmax = np.argmax(data_envelope.data)
      pickedArrival[i] = ti[idmax]
  \<close>
  The plotting calls are left out. The loop has no exception handler: whatever a call
  raises leaves the loop. The body returns the pick of one period, or the error, and the
  store it leaves behind. \<open>T\<close> is a numpy scalar, so \<open>0.85 / T\<close> does not raise for
  \<open>T = 0\<close>; the model reports it as \<open>FloatingPointError\<close>.
\<close>

definition envelope_pick_body ::
  "bandpass_fun \<Rightarrow> (real list \<Rightarrow> real list) \<Rightarrow> nat \<Rightarrow> real list \<Rightarrow> nat \<Rightarrow> real \<Rightarrow> heap
     \<Rightarrow> (error + real) \<times> heap" where
  "envelope_pick_body bp envelope iZRT ti st T h =
     (case stream_copy st h of
        (st_temp, h1) \<Rightarrow>
          if T = 0 then (Inl FloatingPointError, h1)
          else
            (case stream_filter bp (0.85 / T) (1.15 / T) st_temp h1 of
               (Some e, h2) \<Rightarrow> (Inl e, h2)
             | (None, h2) \<Rightarrow>
                 (case trace_at (h2 ! st_temp) iZRT of
                    Inl e \<Rightarrow> (Inl e, h2)
                  | Inr tr \<Rightarrow>
                      (case np_argmax (envelope (tr_data tr)) of
                         Inl e \<Rightarrow> (Inl e, h2)
                       | Inr idmax \<Rightarrow>
                           if idmax < length ti then (Inr (ti ! idmax), h2)
                           else (Inl IndexError, h2)))))"

fun envelope_pick_loop ::
  "bandpass_fun \<Rightarrow> (real list \<Rightarrow> real list) \<Rightarrow> nat \<Rightarrow> real list \<Rightarrow> nat \<Rightarrow> real list \<Rightarrow> nat
     \<Rightarrow> real list \<Rightarrow> heap \<Rightarrow> (error + real list) \<times> heap" where
  "envelope_pick_loop bp envelope iZRT ti st [] i pickedArrival h = (Inr pickedArrival, h)"
| "envelope_pick_loop bp envelope iZRT ti st (T # Ts) i pickedArrival h =
     (case envelope_pick_body bp envelope iZRT ti st T h of
        (Inl e, h') \<Rightarrow> (Inl e, h')
      | (Inr t, h') \<Rightarrow>
          if i < length pickedArrival
          then envelope_pick_loop bp envelope iZRT ti st Ts (Suc i) (pickedArrival[i := t]) h'
          else (Inl IndexError, h'))"

definition envelope_picker ::
  "bandpass_fun \<Rightarrow> (real list \<Rightarrow> real list) \<Rightarrow> nat \<Rightarrow> real list \<Rightarrow> nat \<Rightarrow> real list \<Rightarrow> heap
     \<Rightarrow> (error + real list) \<times> heap" where
  "envelope_picker bp envelope iZRT ti st myPeriods h =
     envelope_pick_loop bp envelope iZRT ti st myPeriods 0 (replicate (length myPeriods) 0) h"

section \<open>Wavelet power spectrum\<close>

text \<open>
  \<^verbatim>\<open>
  def compute_wavelet_power_spectrum(mydata, dt):
      std = mydata.std()
      dat_norm = mydata / std
      mother = wavelet.Morlet(6)
      s0 = 2 * dt  # Starting scale
      dj = 1 / 12.0  # Twelve sub-octaves per octaves
      J = 8.0 / dj  # Height powers of two with dj sub-octaves
      # wave is shaped (nfreq, nti), with nfreq = J + 1 = 8 * 12 +1,
      # and nti the number of samples of the signal
      wave, scales, freqs, coi, fft, fftfreqs = wavelet.cwt(dat_norm, dt, dj, s0, J, mother)
      iwave = wavelet.icwt(wave, scales, dt, dj, mother) * std
      period = 1.0 / freqs
      power = (np.abs(wave)) ** 2
      power /= scales[:, None]
      return period, power, wave, coi
  \<close>
  The continuous wavelet transform \<open>wavelet.cwt\<close> is a library routine and a parameter
  of the model (with the Morlet mother wavelet fixed); of its six results the function
  uses four. \<open>iwave\<close> is computed and never used.
\<close>

record cwt_result =
  cwt_wave :: "complex list list"
  cwt_scales :: "real list"
  cwt_freqs :: "real list"
  cwt_coi :: "real list"

type_synonym cwt_fun = "real list \<Rightarrow> real \<Rightarrow> real \<Rightarrow> real \<Rightarrow> real \<Rightarrow> cwt_result"

definition compute_wavelet_power_spectrum ::
  "cwt_fun \<Rightarrow> real list \<Rightarrow> real \<Rightarrow>
     error + (real list \<times> real list list \<times> complex list list \<times> real list)" where
  "compute_wavelet_power_spectrum cwt mydata dt =
     (case np_std mydata of
        Inl e \<Rightarrow> Inl e
      | Inr std \<Rightarrow>
     (case f64_array_div mydata std of
        Inl e \<Rightarrow> Inl e
      | Inr dat_norm \<Rightarrow>
          (let s0 = 2 * dt;
               dj = 1 / 12;
               J = 8 / dj;
               r = cwt dat_norm dt dj s0 J
           in case np_scalar_div 1 (cwt_freqs r) of
                Inl e \<Rightarrow> Inl e
              | Inr period \<Rightarrow>
                  (let power0 = map (map (\<lambda>z. (cmod z) ^ 2)) (cwt_wave r)
                   in case div_by_column power0 (cwt_scales r) of
                        Inl e \<Rightarrow> Inl e
                      | Inr power1 \<Rightarrow> Inr (period, power1, cwt_wave r, cwt_coi r)))))"

text \<open>
  What the function relies on from the transform, as its own comment records it: the
  coefficients have \<open>J + 1\<close> rows (one per scale, \<open>J\<close> a whole number) and one column per
  sample of the signal, and there is one scale and one frequency per row.
\<close>

definition cwt_shape :: "cwt_fun \<Rightarrow> bool" where
  "cwt_shape cwt \<longleftrightarrow>
     (\<forall>x dt dj s0 J.
        length (cwt_wave (cwt x dt dj s0 J)) = nat \<lfloor>J\<rfloor> + 1 \<and>
        (\<forall>row \<in> set (cwt_wave (cwt x dt dj s0 J)). length row = length x) \<and>
        length (cwt_scales (cwt x dt dj s0 J)) = nat \<lfloor>J\<rfloor> + 1 \<and>
        length (cwt_freqs (cwt x dt dj s0 J)) = nat \<lfloor>J\<rfloor> + 1)"

text \<open>Scales and frequencies are positive when the starting scale is.\<close>

definition cwt_positive :: "cwt_fun \<Rightarrow> bool" where
  "cwt_positive cwt \<longleftrightarrow>
     (\<forall>x dt dj s0 J. 0 < s0 \<longrightarrow>
        (\<forall>s \<in> set (cwt_scales (cwt x dt dj s0 J)). 0 < s) \<and>
        (\<forall>f \<in> set (cwt_freqs (cwt x dt dj s0 J)). 0 < f))"

text \<open>A trace is constant when all its samples are equal.\<close>

definition constant_trace :: "real list \<Rightarrow> bool" where
  "constant_trace xs \<longleftrightarrow> (\<forall>x \<in> set xs. \<forall>y \<in> set xs. x = y)"

section \<open>Wavelet arrival picker\<close>

text \<open>
  \<^verbatim>\<open>
  def pickArrivalWavelet(ti, power, period, tmin=1050, tmax=3000):
      # pick arrival time from the wavelet Power Spectrum data
      maxs = np.amax(power, axis=1)
      # enforce that the arrival time should be greater than tmin
      idtmin = np.argmin(np.abs(ti - tmin))
      idtmax = np.argmin(np.abs(ti - tmax))
      idmaxs = np.argmax(power[:, idtmin:idtmax], axis=1) + idtmin

      pickedArrivalWavelet = np.zeros_like(period)
      for i in range(power.shape[0]):
          pickedArrivalWavelet[i] = ti[idmaxs[i]]
      return pickedArrivalWavelet
  \<close>
  \<open>period\<close> is the array of periods that \<open>compute_wavelet_power_spectrum\<close> returns,
  an array of doubles, so \<open>np.zeros_like(period)\<close> is an array of doubles with one zero
  per period and the assignment in the loop stores the sample of \<open>ti\<close> unchanged. The
  loop runs over the rows of \<open>power\<close>: entries of the result beyond the number of rows
  stay zero, and a row beyond the length of \<open>period\<close> raises \<open>IndexError\<close>.
\<close>

definition nearest_index :: "real list \<Rightarrow> real \<Rightarrow> error + nat" where
  "nearest_index ti t = np_argmin (map (\<lambda>x. \<bar>x - t\<bar>) ti)"

fun pick_loop :: "real list \<Rightarrow> nat list \<Rightarrow> nat \<Rightarrow> real list \<Rightarrow> error + real list" where
  "pick_loop ti [] i out = Inr out"
| "pick_loop ti (idm # idmaxs) i out =
     (if idm < length ti \<and> i < length out
      then pick_loop ti idmaxs (Suc i) (out[i := ti ! idm])
      else Inl IndexError)"

definition pickArrivalWavelet ::
  "real list \<Rightarrow> array2d \<Rightarrow> real list \<Rightarrow> real \<Rightarrow> real \<Rightarrow> error + real list" where
  "pickArrivalWavelet ti power_arr period tmin tmax =
     (case amax_axis1 power_arr of
        Inl e \<Rightarrow> Inl e
      | Inr maxs \<Rightarrow>
     (case nearest_index ti tmin of
        Inl e \<Rightarrow> Inl e
      | Inr idtmin \<Rightarrow>
     (case nearest_index ti tmax of
        Inl e \<Rightarrow> Inl e
      | Inr idtmax \<Rightarrow>
     (case argmax_axis1 (slice_cols power_arr idtmin idtmax) of
        Inl e \<Rightarrow> Inl e
      | Inr am \<Rightarrow>
          pick_loop ti (map (\<lambda>j. j + idtmin) am) 0 (replicate (length period) 0)))))"

text \<open>The call with the default window, \<open>tmin=1050\<close> and \<open>tmax=3000\<close>.\<close>

definition pickArrivalWavelet_default ::
  "real list \<Rightarrow> array2d \<Rightarrow> real list \<Rightarrow> error + real list" where
  "pickArrivalWavelet_default ti power_arr period =
     pickArrivalWavelet ti power_arr period 1050 3000"

section \<open>Group velocity\<close>

text \<open>
  \<^verbatim>\<open>group_velocity_from_wavelet = dist_km_sr / pickedArrivalWavelet\<close>

  A Python float divided by an array of doubles: one binary64 division per picked time,
  each quotient rounded to the nearest double. A picked time of zero is a division by
  zero.
\<close>

definition group_velocity_from_wavelet :: "real \<Rightarrow> real list \<Rightarrow> error + real list" where
  "group_velocity_from_wavelet dist_km_sr pickedArrivalWavelet =
     collect (map (f64_div dist_km_sr) pickedArrivalWavelet)"

section \<open>Phase velocity: filtering and cross-correlating two receivers\<close>

text \<open>
  \<^verbatim>\<open>
  nsamples = 1000
  atshift = np.linspace(-nsamples, nsamples, 2 * nsamples + 1) * dt
  cc_data = np.zeros((myPeriods2.shape[0], 2 * nsamples + 1))
  x_filter = 0.25
  for i, T in enumerate(myPeriods2):
      st_temp = st.copy()
      st_temp2 = st2.copy()
      for sti in [st_temp, st_temp2]:
          sti.filter("bandpass", freqmin=(1.0 - x_filter) / T, freqmax=(1.0 + x_filter) / T,
                     corners=4, zerophase=True)
      cc = correlate(st_temp2[iZRT], st_temp[iZRT], nsamples)
      cc_data[i, :] = cc
  \<close>
\<close>

definition linspace_sym :: "nat \<Rightarrow> real list" where
  "linspace_sym nsamples = map (\<lambda>k. real k - real nsamples) [0..<2 * nsamples + 1]"

definition atshift_of :: "nat \<Rightarrow> real \<Rightarrow> real list" where
  "atshift_of nsamples dt = map (\<lambda>x. x * dt) (linspace_sym nsamples)"

definition phase_corr_body ::
  "bandpass_fun \<Rightarrow> correlate_fun \<Rightarrow> nat \<Rightarrow> nat \<Rightarrow> real \<Rightarrow> nat \<Rightarrow> nat \<Rightarrow> real \<Rightarrow> heap
     \<Rightarrow> (error + real list) \<times> heap" where
  "phase_corr_body bp corr iZRT nsamples x_filter st st2 T h =
     (case stream_copy st h of
        (st_temp, h1) \<Rightarrow>
     (case stream_copy st2 h1 of
        (st_temp2, h2) \<Rightarrow>
          if T = 0 then (Inl FloatingPointError, h2)
          else
            (case stream_filter bp ((1 - x_filter) / T) ((1 + x_filter) / T) st_temp h2 of
               (Some e, h3) \<Rightarrow> (Inl e, h3)
             | (None, h3) \<Rightarrow>
            (case stream_filter bp ((1 - x_filter) / T) ((1 + x_filter) / T) st_temp2 h3 of
               (Some e, h4) \<Rightarrow> (Inl e, h4)
             | (None, h4) \<Rightarrow>
            (case trace_at (h4 ! st_temp2) iZRT of
               Inl e \<Rightarrow> (Inl e, h4)
             | Inr tr2 \<Rightarrow>
            (case trace_at (h4 ! st_temp) iZRT of
               Inl e \<Rightarrow> (Inl e, h4)
             | Inr tr1 \<Rightarrow>
                 (corr (tr_data tr2) (tr_data tr1) nsamples, h4)))))))"

fun phase_corr_loop ::
  "bandpass_fun \<Rightarrow> correlate_fun \<Rightarrow> nat \<Rightarrow> nat \<Rightarrow> real \<Rightarrow> nat \<Rightarrow> nat \<Rightarrow> real list \<Rightarrow> nat
     \<Rightarrow> real list list \<Rightarrow> heap \<Rightarrow> (error + real list list) \<times> heap" where
  "phase_corr_loop bp corr iZRT nsamples x_filter st st2 [] i cc_data h = (Inr cc_data, h)"
| "phase_corr_loop bp corr iZRT nsamples x_filter st st2 (T # Ts) i cc_data h =
     (case phase_corr_body bp corr iZRT nsamples x_filter st st2 T h of
        (Inl e, h') \<Rightarrow> (Inl e, h')
      | (Inr cc, h') \<Rightarrow>
          (case set_row cc_data i cc of
             Inl e \<Rightarrow> (Inl e, h')
           | Inr cc_data' \<Rightarrow>
               phase_corr_loop bp corr iZRT nsamples x_filter st st2 Ts (Suc i) cc_data' h'))"

definition phase_correlator ::
  "bandpass_fun \<Rightarrow> correlate_fun \<Rightarrow> nat \<Rightarrow> nat \<Rightarrow> nat \<Rightarrow> nat \<Rightarrow> real list \<Rightarrow> heap
     \<Rightarrow> (error + real list list) \<times> heap" where
  "phase_correlator bp corr iZRT nsamples st st2 myPeriods2 h =
     phase_corr_loop bp corr iZRT nsamples 0.25 st st2 myPeriods2 0
       (replicate (length myPeriods2) (replicate (2 * nsamples + 1) 0)) h"

section \<open>Phase velocity: lag filtering\<close>

text \<open>
  \<^verbatim>\<open>
  Vmax = 7.0
  id_realistic = np.where(atshift > dist_km_src12 / Vmax)[0]
  atshift = atshift[id_realistic]
  cc_data = cc_data[:, id_realistic]
  V_phase = dist_km_src12 / atshift
  \<close>
  \<open>dist_km_src12\<close> and \<open>Vmax\<close> are Python floats, \<open>atshift\<close> is an array.
\<close>

record lag_filtered =
  lf_atshift :: "real list"
  lf_cc_data :: "real list list"
  lf_V_phase :: "real list"

definition lag_filter ::
  "real \<Rightarrow> real \<Rightarrow> real list \<Rightarrow> real list list \<Rightarrow> error + lag_filtered" where
  "lag_filter dist_km_src12 Vmax atshift cc_data =
     (case py_float_div dist_km_src12 Vmax of
        Inl e \<Rightarrow> Inl e
      | Inr lag_min \<Rightarrow>
          (let id_realistic = where_gt atshift lag_min in
           case take_idx atshift id_realistic of
             Inl e \<Rightarrow> Inl e
           | Inr atshift' \<Rightarrow>
               (case take_cols cc_data id_realistic of
                  Inl e \<Rightarrow> Inl e
                | Inr cc_data' \<Rightarrow>
                    (case np_scalar_div dist_km_src12 atshift' of
                       Inl e \<Rightarrow> Inl e
                     | Inr V_phase \<Rightarrow>
                         Inr \<lparr>lf_atshift = atshift', lf_cc_data = cc_data',
                              lf_V_phase = V_phase\<rparr>))))"

section \<open>Normalized cross-correlation\<close>

text \<open>
  Modelled from the spec: the normalized cross-correlation between two traces over a
  symmetric lag window of fixed sample count, with coefficients in \<open>[-1, 1]\<close>. The notebook
  imports \<open>correlate\<close> from its signal-processing library and calls it as
  \<^verbatim>\<open>correlate(st_temp2[iZRT], st_temp[iZRT], nsamples)\<close>; the body of the routine is not
  part of the notebook.

  Both traces have their mean removed. The coefficient at lag \<open>L\<close>, for \<open>L\<close> from
  \<open>-shift\<close> to \<open>shift\<close>, is the sum of the products \<open>a[n + L] * b[n]\<close> over the samples
  where both exist, divided by the root of the product of the two traces' energies. It is
  entry \<open>shift + L\<close> of the result. Two traces without energy give zeros.
\<close>

definition at_or_zero :: "real list \<Rightarrow> int \<Rightarrow> real" where
  "at_or_zero xs k = (if 0 \<le> k \<and> k < int (length xs) then xs ! nat k else 0)"

definition xcorr_at :: "real list \<Rightarrow> real list \<Rightarrow> int \<Rightarrow> real" where
  "xcorr_at a b L = (\<Sum>n\<leftarrow>[0..<length b]. at_or_zero a (int n + L) * b ! n)"

definition sum_squares :: "real list \<Rightarrow> real" where
  "sum_squares xs = (\<Sum>x\<leftarrow>xs. x ^ 2)"

definition correlate :: "real list \<Rightarrow> real list \<Rightarrow> nat \<Rightarrow> error + real list" where
  "correlate a b shift =
     (case np_mean a of
        Inl e \<Rightarrow> Inl e
      | Inr mean_a \<Rightarrow>
     (case np_mean b of
        Inl e \<Rightarrow> Inl e
      | Inr mean_b \<Rightarrow>
          (let a0 = map (\<lambda>x. x - mean_a) a;
               b0 = map (\<lambda>x. x - mean_b) b;
               norm = sqrt (sum_squares a0 * sum_squares b0)
           in if norm = 0 then Inr (replicate (2 * shift + 1) 0)
              else Inr (map (\<lambda>k. xcorr_at a0 b0 (int k - int shift) / norm)
                          [0..<2 * shift + 1]))))"

section \<open>Concrete instances\<close>

text \<open>
  Small instances of the library routines and of a trace, for running the loops on
  concrete data. The filter instance rejects a band whose low corner lies above the
  Nyquist frequency \<open>1 / (2 * delta)\<close> and otherwise halves every sample (any change of
  the samples would do). The transform instance has the shapes of \<open>cwt_shape\<close> and unit
  scales and frequencies.
\<close>

definition bandpass_standin :: bandpass_fun where
  "bandpass_standin freqmin freqmax delta xs =
     (if 1 / (2 * delta) < freqmin then Inl ValueError else Inr (map (\<lambda>x. x / 2) xs))"

definition cwt_standin :: cwt_fun where
  "cwt_standin x dt dj s0 J =
     \<lparr>cwt_wave = replicate (nat \<lfloor>J\<rfloor> + 1) (map (\<lambda>v. Complex v 0) x),
      cwt_scales = replicate (nat \<lfloor>J\<rfloor> + 1) 1,
      cwt_freqs = replicate (nat \<lfloor>J\<rfloor> + 1) 1,
      cwt_coi = map (\<lambda>v. 1) x\<rparr>"

definition trace_example :: trace where
  "trace_example = \<lparr>tr_data = [0, 2, 0, 6, 0], tr_delta = 1, tr_start = 0\<rparr>"

text \<open>The filter raises on the stream \<open>s\<close> for the band around the period \<open>T\<close>.\<close>

definition band_fails :: "bandpass_fun \<Rightarrow> real \<Rightarrow> stream \<Rightarrow> bool" where
  "band_fails bp T s \<longleftrightarrow> fst (filter_traces bp (0.85 / T) (1.15 / T) s) \<noteq> None"

text \<open>One store extends another: every object of the first is in the second, unchanged.\<close>

definition heap_extends :: "heap \<Rightarrow> heap \<Rightarrow> bool" where
  "heap_extends h h' \<longleftrightarrow> length h \<le> length h' \<and> (\<forall>r < length h. h' ! r = h ! r)"

text \<open>The samples, sample interval and length of every trace of a stream.\<close>

definition trace_summary :: "stream \<Rightarrow> (real list \<times> real \<times> nat) list" where
  "trace_summary s = map (\<lambda>tr. (tr_data tr, tr_delta tr, npts tr)) s"

section \<open>Lemmas: array helpers\<close>

lemma argmax_list_less: "xs \<noteq> [] \<Longrightarrow> argmax_list xs < length xs"
  by (induction xs rule: argmax_list.induct) (auto simp: Let_def)

lemma argmin_list_less: "xs \<noteq> [] \<Longrightarrow> argmin_list xs < length xs"
  by (induction xs rule: argmin_list.induct) (auto simp: Let_def)

lemma argmax_list_max: "k < length xs \<Longrightarrow> xs ! k \<le> xs ! argmax_list xs"
proof (induction xs arbitrary: k rule: argmax_list.induct)
  case 1
  then show ?case by simp
next
  case (2 x)
  then show ?case by simp
next
  case (3 x y ys)
  show ?case
  proof (cases k)
    case 0
    then show ?thesis by (auto simp: Let_def)
  next
    case (Suc k')
    then have "(y # ys) ! k' \<le> (y # ys) ! argmax_list (y # ys)"
      using "3.prems" "3.IH" by simp
    then show ?thesis using Suc by (auto simp: Let_def)
  qed
qed

lemma argmin_list_min: "k < length xs \<Longrightarrow> xs ! argmin_list xs \<le> xs ! k"
proof (induction xs arbitrary: k rule: argmin_list.induct)
  case 1
  then show ?case by simp
next
  case (2 x)
  then show ?case by simp
next
  case (3 x y ys)
  show ?case
  proof (cases k)
    case 0
    then show ?thesis by (auto simp: Let_def)
  next
    case (Suc k')
    then have "(y # ys) ! argmin_list (y # ys) \<le> (y # ys) ! k'"
      using "3.prems" "3.IH" by simp
    then show ?thesis using Suc by (auto simp: Let_def)
  qed
qed

lemma argmax_list_first: "k < argmax_list xs \<Longrightarrow> xs ! k < xs ! argmax_list xs"
proof (induction xs arbitrary: k rule: argmax_list.induct)
  case 1
  then show ?case by simp
next
  case (2 x)
  then show ?case by simp
next
  case (3 x y ys)
  let ?j = "argmax_list (y # ys)"
  from "3.prems" have nz: "\<not> (y # ys) ! ?j \<le> x" and am: "argmax_list (x # y # ys) = Suc ?j"
    by (auto simp: Let_def split: if_splits)
  show ?case
  proof (cases k)
    case 0
    then show ?thesis using nz am by simp
  next
    case (Suc k')
    then have "k' < ?j" using "3.prems" am by simp
    then have "(y # ys) ! k' < (y # ys) ! ?j" using "3.IH" by simp
    then show ?thesis using Suc am by simp
  qed
qed

lemma argmin_list_first: "k < argmin_list xs \<Longrightarrow> xs ! argmin_list xs < xs ! k"
proof (induction xs arbitrary: k rule: argmin_list.induct)
  case 1
  then show ?case by simp
next
  case (2 x)
  then show ?case by simp
next
  case (3 x y ys)
  let ?j = "argmin_list (y # ys)"
  from "3.prems" have nz: "\<not> x \<le> (y # ys) ! ?j" and am: "argmin_list (x # y # ys) = Suc ?j"
    by (auto simp: Let_def split: if_splits)
  show ?case
  proof (cases k)
    case 0
    then show ?thesis using nz am by simp
  next
    case (Suc k')
    then have "k' < ?j" using "3.prems" am by simp
    then have "(y # ys) ! ?j < (y # ys) ! k'" using "3.IH" by simp
    then show ?thesis using Suc am by simp
  qed
qed

lemma where_gt_in_range: "i \<in> set (where_gt xs c) \<Longrightarrow> i < length xs"
  by (simp add: where_gt_def)

lemma map_nth_filter_upt:
  "map (\<lambda>i. xs ! i) (filter (\<lambda>i. P (xs ! i)) [0..<length xs]) = filter P xs"
proof (induction xs rule: rev_induct)
  case Nil
  show ?case by simp
next
  case (snoc x xs)
  have "\<And>i. i \<in> set [0..<length xs] \<Longrightarrow> (xs @ [x]) ! i = xs ! i"
    by (simp add: nth_append)
  then have a: "filter (\<lambda>i. P ((xs @ [x]) ! i)) [0..<length xs]
      = filter (\<lambda>i. P (xs ! i)) [0..<length xs]"
    by (metis (mono_tags, lifting) filter_cong)
  have b: "map (\<lambda>i. (xs @ [x]) ! i) (filter (\<lambda>i. P (xs ! i)) [0..<length xs])
      = map (\<lambda>i. xs ! i) (filter (\<lambda>i. P (xs ! i)) [0..<length xs])"
    by (rule map_cong) (auto simp: nth_append)
  show ?case using snoc.IH by (simp add: a b)
qed

lemma take_idx_where_gt:
  "take_idx xs (where_gt xs c) = Inr (filter (\<lambda>x. c < x) xs)"
  using map_nth_filter_upt [of xs "\<lambda>x. c < x"]
  by (simp add: take_idx_def where_gt_def)

lemma take_cols_where_gt:
  "\<forall>row \<in> set cc. length row = length xs \<Longrightarrow>
   take_cols cc (where_gt xs c) = Inr (map (\<lambda>row. map (\<lambda>i. row ! i) (where_gt xs c)) cc)"
proof (induction cc)
  case Nil
  show ?case by simp
next
  case (Cons row cc)
  have "\<forall>i \<in> set (where_gt xs c). i < length row"
    using Cons.prems by (simp add: where_gt_def)
  then have "take_idx row (where_gt xs c) = Inr (map (\<lambda>i. row ! i) (where_gt xs c))"
    by (simp add: take_idx_def)
  with Cons show ?case by simp
qed


lemma div_rows_defined:
  "length col = length a \<Longrightarrow> 0 \<notin> set col \<Longrightarrow> \<exists>q. div_rows a col = Inr q"
proof (induction a col rule: div_rows.induct)
  case 1
  show ?case by simp
next
  case (2 row rws s ss)
  have r: "np_div_scalar row s = Inr (map (\<lambda>x. x / s) row)"
    using "2.prems" by (simp add: np_div_scalar_def)
  from "2.IH" [OF r] "2.prems" obtain rs where "div_rows rws ss = Inr rs" by auto
  with r show ?case by simp
qed simp_all


section \<open>Lemmas: double-precision arithmetic\<close>

lemma pow2_powr: "pow2 e = 2 powr (of_int e)"
  by (simp add: pow2_def powr_real_of_int divide_inverse)

lemma pow2_pos: "0 < pow2 e"
  by (simp add: pow2_powr)

lemma pow2_add: "pow2 (a + b) = pow2 a * pow2 b"
  by (simp add: pow2_powr powr_add)

lemma pow2_mono: "a \<le> b \<Longrightarrow> pow2 a \<le> pow2 b"
  by (simp add: pow2_powr)

lemma pow2_nat: "pow2 (int k) = 2 ^ k"
  by (simp add: pow2_def)

lemma pow2_neg_nat: "pow2 (- int k) = 1 / 2 ^ k"
  by (cases "k = 0") (simp_all add: pow2_def)

lemma round_half_even_error: "\<bar>of_int (round_half_even y) - y\<bar> \<le> 1 / 2"
  unfolding round_half_even_def Let_def by (auto simp: abs_le_iff)

lemma round_half_even_of_int: "round_half_even (of_int n) = n"
  by (simp add: round_half_even_def)

lemma binade_normal:
  assumes "pow2 k \<le> \<bar>x\<bar>" and "\<bar>x\<bar> < pow2 (k + 1)" and "- 1022 \<le> k"
  shows "binade x = k"
proof -
  have pos: "0 < \<bar>x\<bar>" using assms(1) pow2_pos [of k] by linarith
  have "\<lfloor>log 2 \<bar>x\<bar>\<rfloor> = k"
    using assms(1,2) floor_log_eq_powr_iff [OF pos, of 2 k] by (simp add: pow2_powr)
  then show ?thesis using assms(3) by (simp add: binade_def)
qed

lemma binade_subnormal:
  assumes "x \<noteq> 0" and "\<bar>x\<bar> < pow2 (- 1022)"
  shows "binade x = - 1022"
proof -
  have pos: "0 < \<bar>x\<bar>" using assms(1) by simp
  define k where "k = \<lfloor>log 2 \<bar>x\<bar>\<rfloor>"
  have "2 powr (of_int k) \<le> \<bar>x\<bar>"
    using floor_log_eq_powr_iff [OF pos, of 2 k] by (simp add: k_def)
  then have "pow2 k \<le> \<bar>x\<bar>" by (simp only: pow2_powr)
  then have "pow2 k < pow2 (- 1022)" using assms(2) by linarith
  then have "\<not> - 1022 \<le> k" using pow2_mono [of "- 1022" k] by linarith
  then show ?thesis by (simp add: binade_def k_def)
qed

lemma binade_lower: "- 1022 \<le> binade x"
  by (simp add: binade_def)

lemma pow2_binade_le:
  assumes "pow2 (- 1022) \<le> \<bar>x\<bar>"
  shows "pow2 (binade x) \<le> \<bar>x\<bar>"
proof -
  have pos: "0 < \<bar>x\<bar>" using assms pow2_pos [of "- 1022"] by linarith
  define k where "k = \<lfloor>log 2 \<bar>x\<bar>\<rfloor>"
  have k: "2 powr (of_int k) \<le> \<bar>x\<bar>"
    using floor_log_eq_powr_iff [OF pos, of 2 k] by (simp add: k_def)
  show ?thesis
  proof (cases "- 1022 \<le> k")
    case True
    then have "binade x = k" by (simp add: binade_def k_def)
    with k show ?thesis by (simp add: pow2_powr)
  next
    case False
    then have "binade x = - 1022" by (simp add: binade_def k_def)
    with assms show ?thesis by simp
  qed
qed

lemma fl_error:
  assumes "pow2 (- 1022) \<le> \<bar>x\<bar>"
  shows "\<bar>fl x - x\<bar> \<le> \<bar>x\<bar> / 2 ^ 53"
proof -
  have nz: "x \<noteq> 0" using assms pow2_pos [of "- 1022"] by auto
  let ?q = "ulp_of x"
  have q: "0 < ?q" by (simp add: ulp_of_def pow2_pos)
  have "?q = pow2 (binade x) * pow2 (- 52)"
    unfolding ulp_of_def using pow2_add [of "binade x" "- 52"] by simp
  also have "\<dots> \<le> \<bar>x\<bar> * pow2 (- 52)"
    using pow2_binade_le [OF assms] pow2_pos [of "- 52"] by simp
  finally have qle: "?q \<le> \<bar>x\<bar> / 2 ^ 52" by (simp add: pow2_def)
  have "fl x - x = (of_int (round_half_even (x / ?q)) - x / ?q) * ?q"
    using nz q by (simp add: fl_def algebra_simps)
  then have "\<bar>fl x - x\<bar> = \<bar>of_int (round_half_even (x / ?q)) - x / ?q\<bar> * ?q"
    using q by (simp add: abs_mult)
  also have "\<dots> \<le> (1 / 2) * ?q"
    using round_half_even_error [of "x / ?q"] q by (intro mult_right_mono) simp_all
  also have "\<dots> \<le> (1 / 2) * (\<bar>x\<bar> / 2 ^ 52)" using qle by simp
  finally show ?thesis by simp
qed

lemma fl_eval_neg:
  assumes "k \<le> 1022" and "1 / 2 ^ k \<le> \<bar>x\<bar>" and "\<bar>x\<bar> < 2 / 2 ^ k"
  shows "fl x = of_int (round_half_even (x * 2 ^ (k + 52))) / 2 ^ (k + 52)"
proof -
  have "(0::real) < 1 / 2 ^ k" by simp
  with assms(2) have "0 < \<bar>x\<bar>" by linarith
  then have nz: "x \<noteq> 0" by simp
  have "pow2 (1 - int k) = pow2 1 * pow2 (- int k)"
    using pow2_add [of 1 "- int k"] by simp
  then have p1: "pow2 (1 - int k) = 2 / 2 ^ k"
    by (simp add: pow2_neg_nat pow2_def [of 1])
  have b: "binade x = - int k"
    using assms binade_normal [of "- int k" x] by (simp add: pow2_neg_nat p1)
  have "- int k - 52 = - int (k + 52)" by simp
  then have u: "ulp_of x = 1 / 2 ^ (k + 52)"
    unfolding ulp_of_def b by (simp only: pow2_neg_nat)
  show ?thesis using nz by (simp add: fl_def u)
qed

lemma fl_eval_pos:
  assumes "2 ^ k \<le> \<bar>x\<bar>" and "\<bar>x\<bar> < 2 * 2 ^ k"
  shows "fl x = of_int (round_half_even (x * 2 ^ 52 / 2 ^ k)) * 2 ^ k / 2 ^ 52"
proof -
  have "(0::real) < 2 ^ k" by simp
  with assms(1) have "0 < \<bar>x\<bar>" by linarith
  then have nz: "x \<noteq> 0" by simp
  have p1: "pow2 (int k + 1) = 2 * 2 ^ k"
    using pow2_add [of "int k" 1] by (simp add: pow2_nat pow2_def)
  have b: "binade x = int k"
    using assms by (intro binade_normal) (simp_all add: pow2_nat p1)
  have u: "ulp_of x = 2 ^ k / 2 ^ 52"
    unfolding ulp_of_def b using pow2_add [of "int k" "- 52"]
    by (simp add: pow2_nat pow2_def)
  show ?thesis using nz by (simp add: fl_def u)
qed

lemma fl_eval_sub:
  assumes "\<bar>x\<bar> < 1 / 2 ^ 1022"
  shows "fl x = of_int (round_half_even (x * 2 ^ 1074)) / 2 ^ 1074"
proof (cases "x = 0")
  case True
  then show ?thesis by (simp add: fl_def round_half_even_def)
next
  case False
  have "pow2 (- 1022) = 1 / 2 ^ 1022" using pow2_neg_nat [of 1022] by simp
  with assms have "binade x = - 1022" using False by (intro binade_subnormal) simp_all
  then have u: "ulp_of x = 1 / 2 ^ 1074"
    unfolding ulp_of_def using pow2_neg_nat [of 1074] by simp
  show ?thesis using False by (simp add: fl_def u)
qed

lemma round_half_even_eval:
  "round_half_even y =
     (if y - of_int \<lfloor>y\<rfloor> < 1 / 2 then \<lfloor>y\<rfloor>
      else if 1 / 2 < y - of_int \<lfloor>y\<rfloor> then \<lfloor>y\<rfloor> + 1
      else if even \<lfloor>y\<rfloor> then \<lfloor>y\<rfloor> else \<lfloor>y\<rfloor> + 1)"
  by (simp add: round_half_even_def Let_def)

lemma collect_map_Inr:
  "(\<forall>x \<in> set xs. f x = Inr (g x)) \<Longrightarrow> collect (map f xs) = Inr (map g xs)"
  by (induction xs) auto

lemma f64_round_normal:
  assumes "1 / 2 ^ 1022 \<le> \<bar>x\<bar>" and "\<bar>x\<bar> < 2 ^ 1023"
  shows "f64_round x = Inr (fl x)" and "\<bar>fl x - x\<bar> \<le> \<bar>x\<bar> / 2 ^ 53"
proof -
  have "pow2 (- 1022) = 1 / 2 ^ 1022" using pow2_neg_nat [of 1022] by simp
  with assms(1) have "pow2 (- 1022) \<le> \<bar>x\<bar>" by simp
  from fl_error [OF this] show err: "\<bar>fl x - x\<bar> \<le> \<bar>x\<bar> / 2 ^ 53" .
  define M :: real where "M = 2 ^ 1023"
  have M: "0 < M" by (simp add: M_def)
  have "\<bar>fl x\<bar> \<le> \<bar>x\<bar> + \<bar>x\<bar> / 2 ^ 53" using err by linarith
  also have "\<dots> = \<bar>x\<bar> * (1 + 1 / 2 ^ 53)" by (simp add: algebra_simps)
  also have "\<dots> \<le> M * (1 + 1 / 2 ^ 53)"
    using assms(2) by (intro mult_right_mono) (simp_all add: M_def)
  also have "\<dots> \<le> M * (2 - 1 / 2 ^ 52)"
    using M by (intro mult_left_mono) simp_all
  finally have "\<bar>fl x\<bar> \<le> f64_max" by (simp add: f64_max_def M_def mult.commute)
  then show "f64_round x = Inr (fl x)" by (simp add: f64_round_def)
qed

lemma then_do_simps [simp]:
  "then_do (Inr x) f = f x" "then_do (Inl e) f = Inl e"
  by (simp_all add: then_do_def)

lemma np_std_Nil: "np_std [] = Inl FloatingPointError"
  by (simp add: np_std_def f64_div_def)

lemma fl_0: "fl 0 = 0"
  by (simp add: fl_def)

lemma sqrt_two_pow_112: "sqrt (1 / 2 ^ 112) = 1 / 2 ^ 56"
proof (rule real_sqrt_unique)
  show "(1 / 2 ^ 56 :: real)\<^sup>2 = 1 / 2 ^ 112" by (simp add: power2_eq_square)
  show "(0::real) \<le> 1 / 2 ^ 56" by simp
qed

lemma sqrt_two_pow_112_numeral:
  "sqrt (1 / 5192296858534827628530496329220096) = 1 / 72057594037927936"
  using sqrt_two_pow_112 by simp

section \<open>Lemmas: the object store\<close>

lemma heap_extends_refl: "heap_extends h h"
  by (simp add: heap_extends_def)

lemma heap_extends_trans: "heap_extends h h1 \<Longrightarrow> heap_extends h1 h2 \<Longrightarrow> heap_extends h h2"
  by (auto simp: heap_extends_def)

lemma heap_extends_nth: "heap_extends h h' \<Longrightarrow> r < length h \<Longrightarrow> h' ! r = h ! r"
  by (simp add: heap_extends_def)

lemma stream_copy_extends:
  "stream_copy r h = (a, h') \<Longrightarrow> a = length h \<and> length h' = Suc (length h) \<and> heap_extends h h'
     \<and> h' ! a = h ! r"
  by (auto simp: stream_copy_def heap_extends_def nth_append)

lemma stream_filter_extends:
  "stream_filter bp lo hi a h1 = (eo, h2) \<Longrightarrow> heap_extends h h1 \<Longrightarrow> length h \<le> a \<Longrightarrow>
     heap_extends h h2 \<and> length h2 = length h1"
  by (auto simp: stream_filter_def heap_extends_def split: prod.splits)

lemma stream_filter_fst:
  "fst (stream_filter bp lo hi a h) = fst (filter_traces bp lo hi (h ! a))"
  by (simp add: stream_filter_def split: prod.splits)

lemma envelope_pick_body_heap:
  assumes "stream_copy st h = (st_temp, h1)"
    and "stream_filter bp (0.85 / T) (1.15 / T) st_temp h1 = (eo, h2)"
  shows "snd (envelope_pick_body bp envelope iZRT ti st T h) = h1 \<or>
         snd (envelope_pick_body bp envelope iZRT ti st T h) = h2"
  unfolding envelope_pick_body_def assms(1) prod.case assms(2)
  by (simp split: option.splits sum.splits)

lemma envelope_pick_body_extends:
  "heap_extends h (snd (envelope_pick_body bp envelope iZRT ti st T h))"
proof -
  obtain st_temp h1 where c: "stream_copy st h = (st_temp, h1)" by fastforce
  obtain eo h2 where f: "stream_filter bp (0.85 / T) (1.15 / T) st_temp h1 = (eo, h2)"
    by fastforce
  from stream_copy_extends [OF c] have a: "st_temp = length h" and e1: "heap_extends h h1"
    by simp_all
  from stream_filter_extends [OF f e1] a have e2: "heap_extends h h2" by simp
  from envelope_pick_body_heap [OF c f] e1 e2 show ?thesis by metis
qed

lemma envelope_pick_loop_extends:
  "heap_extends h (snd (envelope_pick_loop bp envelope iZRT ti st Ts i picked h))"
proof (induction Ts arbitrary: i picked h)
  case Nil
  show ?case by (simp add: heap_extends_refl)
next
  case (Cons T Ts)
  obtain res h' where b: "envelope_pick_body bp envelope iZRT ti st T h = (res, h')"
    by fastforce
  from envelope_pick_body_extends [of h bp envelope iZRT ti st T] b
  have e: "heap_extends h h'" by simp
  show ?case
  proof (cases res)
    case (Inl err)
    with b e show ?thesis by simp
  next
    case (Inr t)
    show ?thesis
    proof (cases "i < length picked")
      case True
      from Cons.IH [of h' "Suc i" "picked[i := t]"] e
      have "heap_extends h
          (snd (envelope_pick_loop bp envelope iZRT ti st Ts (Suc i) (picked[i := t]) h'))"
        by (rule heap_extends_trans [rotated])
      with b Inr True show ?thesis by simp
    next
      case False
      with b Inr e show ?thesis by simp
    qed
  qed
qed

lemma envelope_pick_body_fails:
  assumes "st < length h" and "band_fails bp T (h ! st)"
  shows "\<exists>e. fst (envelope_pick_body bp envelope iZRT ti st T h) = Inl e"
proof -
  obtain st_temp h1 where c: "stream_copy st h = (st_temp, h1)" by fastforce
  from stream_copy_extends [OF c] have cp: "h1 ! st_temp = h ! st" by blast
  from assms(2) obtain e where
    "fst (filter_traces bp (0.85 / T) (1.15 / T) (h1 ! st_temp)) = Some e"
    unfolding band_fails_def cp by blast
  then have "fst (stream_filter bp (0.85 / T) (1.15 / T) st_temp h1) = Some e"
    unfolding stream_filter_fst .
  then obtain h2 where "stream_filter bp (0.85 / T) (1.15 / T) st_temp h1 = (Some e, h2)"
    by (cases "stream_filter bp (0.85 / T) (1.15 / T) st_temp h1") simp
  then show ?thesis unfolding envelope_pick_body_def c prod.case by simp
qed

lemma envelope_pick_loop_fails:
  assumes "st < length h" and "T \<in> set Ts" and "band_fails bp T (h ! st)"
  shows "\<exists>e. fst (envelope_pick_loop bp envelope iZRT ti st Ts i picked h) = Inl e"
  using assms
proof (induction Ts arbitrary: i picked h)
  case Nil
  then show ?case by simp
next
  case (Cons T' Ts)
  obtain res h' where b: "envelope_pick_body bp envelope iZRT ti st T' h = (res, h')"
    by fastforce
  from envelope_pick_body_extends [of h bp envelope iZRT ti st T'] b
  have e: "heap_extends h h'" by simp
  then have st': "st < length h'" and same: "h' ! st = h ! st"
    using Cons.prems(1) by (auto simp: heap_extends_def)
  show ?case
  proof (cases res)
    case (Inl err)
    with b show ?thesis by simp
  next
    case (Inr t)
    have "T \<noteq> T'"
    proof
      assume "T = T'"
      with envelope_pick_body_fails [OF Cons.prems(1), of bp T' envelope iZRT ti] Cons.prems(3)
        b Inr show False by simp
    qed
    with Cons.prems(2) have "T \<in> set Ts" by simp
    from Cons.IH [OF st' this] Cons.prems(3) same
    have "\<exists>e. fst (envelope_pick_loop bp envelope iZRT ti st Ts (Suc i) (picked[i := t]) h')
        = Inl e"
      by simp
    with b Inr show ?thesis by (cases "i < length picked") simp_all
  qed
qed

lemma phase_corr_body_heap:
  assumes "stream_copy st h = (st_temp, h1)" and "stream_copy st2 h1 = (st_temp2, h2)"
    and "stream_filter bp ((1 - x) / T) ((1 + x) / T) st_temp h2 = (eo, h3)"
    and "stream_filter bp ((1 - x) / T) ((1 + x) / T) st_temp2 h3 = (eo', h4)"
  shows "snd (phase_corr_body bp corr iZRT nsamples x st st2 T h) \<in> {h2, h3, h4}"
  unfolding phase_corr_body_def assms(1) prod.case assms(2) assms(3) assms(4)
  by (simp split: option.splits sum.splits)

lemma phase_corr_body_extends:
  "heap_extends h (snd (phase_corr_body bp corr iZRT nsamples x st st2 T h))"
proof -
  obtain st_temp h1 where c1: "stream_copy st h = (st_temp, h1)" by fastforce
  obtain st_temp2 h2 where c2: "stream_copy st2 h1 = (st_temp2, h2)" by fastforce
  obtain eo h3 where
    f1: "stream_filter bp ((1 - x) / T) ((1 + x) / T) st_temp h2 = (eo, h3)" by fastforce
  obtain eo' h4 where
    f2: "stream_filter bp ((1 - x) / T) ((1 + x) / T) st_temp2 h3 = (eo', h4)" by fastforce
  from stream_copy_extends [OF c1] have a1: "st_temp = length h" and e1: "heap_extends h h1"
    and l1: "length h1 = Suc (length h)"
    by simp_all
  from stream_copy_extends [OF c2] have a2: "st_temp2 = length h1" and e12: "heap_extends h1 h2"
    by simp_all
  from heap_extends_trans [OF e1 e12] have e2: "heap_extends h h2" .
  from stream_filter_extends [OF f1 e2] a1 have e3: "heap_extends h h3" by simp
  from stream_filter_extends [OF f2 e3] a2 l1 have e4: "heap_extends h h4" by simp
  from phase_corr_body_heap [OF c1 c2 f1 f2, of corr iZRT nsamples] e2 e3 e4
  show ?thesis by auto
qed

lemma phase_corr_loop_extends:
  "heap_extends h (snd (phase_corr_loop bp corr iZRT nsamples x st st2 Ts i cc_data h))"
proof (induction Ts arbitrary: i cc_data h)
  case Nil
  show ?case by (simp add: heap_extends_refl)
next
  case (Cons T Ts)
  obtain res h' where
    b: "phase_corr_body bp corr iZRT nsamples x st st2 T h = (res, h')" by fastforce
  from phase_corr_body_extends [of h bp corr iZRT nsamples x st st2 T] b
  have e: "heap_extends h h'" by simp
  show ?case
  proof (cases res)
    case (Inl err)
    with b e show ?thesis by simp
  next
    case (Inr cc)
    show ?thesis
    proof (cases "set_row cc_data i cc")
      case (Inl err)
      with b Inr e show ?thesis by simp
    next
      case rw: (Inr cc_data')
      from Cons.IH [of h' "Suc i" cc_data'] e
      have "heap_extends h
          (snd (phase_corr_loop bp corr iZRT nsamples x st st2 Ts (Suc i) cc_data' h'))"
        by (rule heap_extends_trans [rotated])
      with b Inr rw show ?thesis by simp
    qed
  qed
qed

section \<open>Lemmas: wavelet arrival picker\<close>

lemma pick_loop_Inr:
  "pick_loop ti idmaxs i out = Inr res \<Longrightarrow>
   length res = length out \<and>
   (\<forall>k < length idmaxs. idmaxs ! k < length ti \<and> res ! (i + k) = ti ! (idmaxs ! k)) \<and>
   (\<forall>m < i. res ! m = out ! m)"
proof (induction idmaxs arbitrary: i out)
  case Nil
  then show ?case by simp
next
  case (Cons idm idmaxs)
  from Cons.prems have ok: "idm < length ti" "i < length out"
    and rec: "pick_loop ti idmaxs (Suc i) (out[i := ti ! idm]) = Inr res"
    by (auto split: if_splits)
  from Cons.IH [OF rec] have len: "length res = length out"
    and a: "\<forall>k < length idmaxs. idmaxs ! k < length ti \<and> res ! (Suc i + k) = ti ! (idmaxs ! k)"
    and b: "\<forall>m < Suc i. res ! m = (out[i := ti ! idm]) ! m"
    by auto
  have c: "res ! i = ti ! idm" using b ok by simp
  have "\<forall>k < length (idm # idmaxs).
      (idm # idmaxs) ! k < length ti \<and> res ! (i + k) = ti ! ((idm # idmaxs) ! k)"
  proof (intro allI impI)
    fix k assume "k < length (idm # idmaxs)"
    then show "(idm # idmaxs) ! k < length ti \<and> res ! (i + k) = ti ! ((idm # idmaxs) ! k)"
      using a c ok by (cases k) auto
  qed
  moreover have "\<forall>m < i. res ! m = out ! m" using b by auto
  ultimately show ?case using len by blast
qed

lemma nearest_index_Inr:
  assumes "nearest_index ti t = Inr j"
  shows "j < length ti" and "\<forall>k < length ti. \<bar>ti ! j - t\<bar> \<le> \<bar>ti ! k - t\<bar>"
    and "\<forall>k < j. \<bar>ti ! j - t\<bar> < \<bar>ti ! k - t\<bar>"
proof -
  let ?d = "map (\<lambda>x. \<bar>x - t\<bar>) ti"
  from assms have ne: "?d \<noteq> []" and j: "j = argmin_list ?d"
    by (auto simp: nearest_index_def np_argmin_def split: if_splits)
  from argmin_list_less [OF ne] show lt: "j < length ti" using j by simp
  show "\<forall>k < length ti. \<bar>ti ! j - t\<bar> \<le> \<bar>ti ! k - t\<bar>"
  proof (intro allI impI)
    fix k assume k: "k < length ti"
    then have "k < length ?d" by simp
    from argmin_list_min [OF this] have "?d ! argmin_list ?d \<le> ?d ! k" .
    then show "\<bar>ti ! j - t\<bar> \<le> \<bar>ti ! k - t\<bar>" using j lt k by simp
  qed
  show "\<forall>k < j. \<bar>ti ! j - t\<bar> < \<bar>ti ! k - t\<bar>"
  proof (intro allI impI)
    fix k assume k: "k < j"
    then have "k < argmin_list ?d" using j by simp
    from argmin_list_first [OF this] have "?d ! argmin_list ?d < ?d ! k" .
    then show "\<bar>ti ! j - t\<bar> < \<bar>ti ! k - t\<bar>" using j lt k by simp
  qed
qed

lemma pickArrivalWavelet_Inr:
  assumes "pickArrivalWavelet ti power_arr period tmin tmax = Inr picks"
  shows "\<exists>idtmin idtmax.
    nearest_index ti tmin = Inr idtmin \<and> nearest_index ti tmax = Inr idtmax \<and>
    idtmin < idtmax \<and> idtmin < ncols power_arr \<and>
    pick_loop ti (map (\<lambda>row. argmax_list (take (idtmax - idtmin) (drop idtmin row)) + idtmin)
        (rows power_arr)) 0 (replicate (length period) 0) = Inr picks"
  using assms
  by (auto simp: pickArrivalWavelet_def amax_axis1_def argmax_axis1_def slice_cols_def o_def
      split: sum.splits if_splits)

lemma pick_loop_rest:
  "pick_loop ti idmaxs i out = Inr res \<Longrightarrow>
   (idmaxs \<noteq> [] \<longrightarrow> i + length idmaxs \<le> length out) \<and>
   (\<forall>m. i + length idmaxs \<le> m \<and> m < length out \<longrightarrow> res ! m = out ! m)"
proof (induction idmaxs arbitrary: i out)
  case Nil
  then show ?case by simp
next
  case (Cons idm idmaxs)
  from Cons.prems have ok: "idm < length ti" "i < length out"
    and rec: "pick_loop ti idmaxs (Suc i) (out[i := ti ! idm]) = Inr res"
    by (auto split: if_splits)
  from Cons.IH [OF rec]
  have a: "idmaxs \<noteq> [] \<longrightarrow> Suc i + length idmaxs \<le> length out"
    and b: "\<forall>m. Suc i + length idmaxs \<le> m \<and> m < length out \<longrightarrow>
              res ! m = (out[i := ti ! idm]) ! m"
    by simp_all
  have "i + length (idm # idmaxs) \<le> length out"
    using a ok(2) by (cases "idmaxs = []") simp_all
  moreover have "\<forall>m. i + length (idm # idmaxs) \<le> m \<and> m < length out \<longrightarrow> res ! m = out ! m"
    using b by simp
  ultimately show ?case by blast
qed

section \<open>Lemmas: lag filtering\<close>

lemma lag_above_bound_pos:
  fixes D Vmax l :: real
  assumes "0 < D" "0 < Vmax" "D / Vmax < l"
  shows "0 < l" and "0 < D / l" and "D / l < Vmax"
proof -
  have "0 < D / Vmax" using assms by simp
  then show l: "0 < l" using assms by linarith
  show "0 < D / l" using assms l by simp
  have "D < l * Vmax" using assms by (simp add: pos_divide_less_eq)
  then show "D / l < Vmax" using l by (simp add: pos_divide_less_eq mult.commute)
qed

lemma lag_filter_result:
  fixes D Vmax :: real
  assumes D: "0 < D" and V: "0 < Vmax"
    and rect: "\<forall>row \<in> set cc_data. length row = length atshift"
  shows "lag_filter D Vmax atshift cc_data =
     Inr \<lparr>lf_atshift = filter (\<lambda>l. D / Vmax < l) atshift,
          lf_cc_data = map (\<lambda>row. map (\<lambda>i. row ! i) (where_gt atshift (D / Vmax))) cc_data,
          lf_V_phase = map (\<lambda>l. D / l) (filter (\<lambda>l. D / Vmax < l) atshift)\<rparr>"
proof -
  have nz: "0 \<notin> set (filter (\<lambda>l. D / Vmax < l) atshift)"
    using lag_above_bound_pos(1) [OF D V] by fastforce
  show ?thesis
    using V nz take_cols_where_gt [OF rect, of "D / Vmax"]
    by (simp add: lag_filter_def py_float_div_def take_idx_where_gt np_scalar_div_def)
qed

lemma lag_filter_Inr:
  assumes "lag_filter D Vmax atshift cc_data = Inr out"
  shows "Vmax \<noteq> 0"
    and "lf_atshift out = filter (\<lambda>l. D / Vmax < l) atshift"
    and "lf_V_phase out = map (\<lambda>l. D / l) (lf_atshift out)"
    and "0 \<notin> set (lf_atshift out)"
  using assms
  by (auto simp: lag_filter_def py_float_div_def take_idx_where_gt np_scalar_div_def Let_def
      split: if_splits sum.splits)

section \<open>Lemmas: cross-correlation\<close>

lemma xcorr_at_sum:
  "xcorr_at a b L =
     (\<Sum>n \<in> {n. n < length b \<and> 0 \<le> int n + L \<and> int n + L < int (length a)}.
        a ! nat (int n + L) * b ! n)"
proof -
  let ?S = "{n. n < length b \<and> 0 \<le> int n + L \<and> int n + L < int (length a)}"
  have "xcorr_at a b L = (\<Sum>n \<in> {0..<length b}. at_or_zero a (int n + L) * b ! n)"
    by (simp add: xcorr_at_def interv_sum_list_conv_sum_set_nat)
  also have "\<dots> = (\<Sum>n \<in> ?S. at_or_zero a (int n + L) * b ! n)"
    by (rule sum.mono_neutral_right) (auto simp: at_or_zero_def)
  also have "\<dots> = (\<Sum>n \<in> ?S. a ! nat (int n + L) * b ! n)"
    by (rule sum.cong) (auto simp: at_or_zero_def)
  finally show ?thesis .
qed

lemma xcorr_at_swap: "xcorr_at a b L = xcorr_at b a (- L)"
proof -
  let ?S = "{n. n < length b \<and> 0 \<le> int n + L \<and> int n + L < int (length a)}"
  let ?T = "{m. m < length a \<and> 0 \<le> int m + (- L) \<and> int m + (- L) < int (length b)}"
  have "(\<Sum>n \<in> ?S. a ! nat (int n + L) * b ! n)
      = (\<Sum>m \<in> ?T. b ! nat (int m + (- L)) * a ! m)"
    by (rule sum.reindex_bij_witness [where i = "\<lambda>m. nat (int m + (- L))"
          and j = "\<lambda>n. nat (int n + L)"]) (auto simp: mult.commute)
  then show ?thesis by (simp only: xcorr_at_sum)
qed

lemma correlate_Inr:
  assumes "correlate a b shift = Inr cc"
  shows "length cc = 2 * shift + 1"
  using assms
  by (auto simp: correlate_def Let_def split: sum.splits if_splits)

lemma correlate_unfold:
  assumes "np_mean a = Inr ma" and "np_mean b = Inr mb"
  shows "correlate a b shift =
     (if sqrt (sum_squares (map (\<lambda>x. x - ma) a) * sum_squares (map (\<lambda>x. x - mb) b)) = 0
      then Inr (replicate (2 * shift + 1) 0)
      else Inr (map (\<lambda>k. xcorr_at (map (\<lambda>x. x - ma) a) (map (\<lambda>x. x - mb) b)
                          (int k - int shift)
                      / sqrt (sum_squares (map (\<lambda>x. x - ma) a)
                              * sum_squares (map (\<lambda>x. x - mb) b)))
                  [0..<2 * shift + 1]))"
  by (simp only: correlate_def assms sum.case Let_def)

section \<open>Lemmas: concrete runs\<close>

lemma envelope_picker_example:
  "envelope_picker bandpass_standin (map abs) 0 [0, 1, 2, 3, 4] 0 [10] [[trace_example]] =
     (Inr [3], [[trace_example], [trace_example\<lparr>tr_data := [0, 1, 0, 3, 0]\<rparr>]])"
  by (simp add: envelope_picker_def envelope_pick_body_def stream_copy_def stream_filter_def
      bandpass_standin_def trace_at_def np_argmax_def trace_example_def)

lemma band_fails_example: "band_fails bandpass_standin 1 [trace_example]"
  by (simp add: band_fails_def bandpass_standin_def trace_example_def)

lemma lag_filter_no_division_error:
  fixes D Vmax :: real
  assumes "0 < D" and "0 < Vmax" and "lag_filter D Vmax atshift cc_data = Inl e"
  shows "e = IndexError"
proof -
  have nz: "0 \<notin> set (filter (\<lambda>l. D / Vmax < l) atshift)"
    using lag_above_bound_pos(1) [OF assms(1,2)] by fastforce
  have tc: "take_cols cc idx = Inl e' \<Longrightarrow> e' = IndexError" for cc idx e'
    by (induction cc arbitrary: e') (auto simp: take_idx_def split: sum.splits if_splits)
  from assms(2,3) nz show ?thesis
    by (auto simp: lag_filter_def py_float_div_def take_idx_where_gt np_scalar_div_def
        dest: tc split: sum.splits)
qed

lemma example_lags: "atshift_of 2 2 = [-4, -2, 0, 2, 4]"
  by (simp add: atshift_of_def linspace_sym_def eval_nat_numeral)

lemma example_lag_filter:
  "lag_filter 14 7 [-4, -2, 0, 2, 4] [[1, 2, 3, 4, 5]] =
     Inr \<lparr>lf_atshift = [4], lf_cc_data = [[5]], lf_V_phase = [7 / 2]\<rparr>"
  by (simp add: lag_filter_def py_float_div_def where_gt_def take_idx_def np_scalar_div_def
      eval_nat_numeral)

section \<open>Lemmas: arrays of doubles\<close>


lemma f64_round_error: "f64_round x = Inl e \<Longrightarrow> e = FloatingPointOverflow"
  by (auto simp: f64_round_def split: if_splits)


lemma f64_array_div_zero: "xs \<noteq> [] \<Longrightarrow> f64_array_div xs 0 = Inl FloatingPointError"
  by (cases xs) (simp_all add: f64_array_div_def f64_div_def)

lemma f64_array_div_error:
  "f64_array_div xs c = Inl e \<Longrightarrow> c \<noteq> 0 \<Longrightarrow> e = FloatingPointOverflow"
proof (induction xs)
  case Nil
  then show ?case by (simp add: f64_array_div_def)
next
  case (Cons x xs)
  show ?case
  proof (cases "f64_round (x / c)")
    case (Inl e')
    with Cons.prems f64_round_error [OF Inl] show ?thesis
      by (simp add: f64_array_div_def f64_div_def)
  next
    case (Inr y)
    with Cons show ?thesis
      by (auto simp: f64_array_div_def f64_div_def split: sum.splits)
  qed
qed

lemma f64_array_div_nonzero:
  "c \<noteq> 0 \<Longrightarrow> f64_array_div xs c = Inr ys \<Longrightarrow> ys = map (\<lambda>x. fl (x / c)) xs"
proof (induction xs arbitrary: ys)
  case Nil
  then show ?case by (simp add: f64_array_div_def)
next
  case (Cons x xs)
  from Cons.prems obtain y ys' where y: "f64_round (x / c) = Inr y"
    and r: "f64_array_div xs c = Inr ys'" and ys: "ys = y # ys'"
    by (cases "f64_round (x / c)")
      (auto simp: f64_array_div_def f64_div_def split: sum.splits)
  from y have "y = fl (x / c)" by (auto simp: f64_round_def split: if_splits)
  with Cons.IH [OF Cons.prems(1) r] ys show ?case by simp
qed

lemmas f64_defs = f64_add_def f64_sub_def f64_mul_def f64_div_def f64_sqrt_def f64_round_def
  f64_max_def

lemmas fl_evals = fl_0 round_half_even_eval
  fl_eval_neg [where k = 0] fl_eval_pos [where k = 1]
  fl_eval_neg [where k = 2] fl_eval_neg [where k = 3] fl_eval_neg [where k = 4]
  fl_eval_neg [where k = 56] fl_eval_neg [where k = 111] fl_eval_neg [where k = 112]
  fl_eval_neg [where k = 598] fl_eval_neg [where k = 599] fl_eval_neg [where k = 600]
  fl_eval_pos [where k = 52] fl_eval_sub

lemma np_std_pm1: "np_std [1, -1] = Inr 1"
  unfolding np_std_def by (simp add: f64_defs fl_evals)

lemma f64_array_div_pm1: "f64_array_div [1, -1] 1 = Inr [1, -1]"
  by (simp add: f64_array_div_def f64_defs fl_evals)

lemma np_std_ones: "np_std [1, 1] = Inr 0"
  unfolding np_std_def by (simp add: f64_defs fl_evals)

lemma np_std_tenth:
  "np_std [3602879701896397 / 2 ^ 55, 3602879701896397 / 2 ^ 55, 3602879701896397 / 2 ^ 55]
     = Inr (1 / 2 ^ 56)"
  unfolding np_std_def by (simp add: f64_defs fl_evals sqrt_two_pow_112_numeral)

lemma f64_array_div_tenth:
  "f64_array_div
     [3602879701896397 / 2 ^ 55, 3602879701896397 / 2 ^ 55, 3602879701896397 / 2 ^ 55]
     (1 / 2 ^ 56) = Inr [7205759403792794, 7205759403792794, 7205759403792794]"
  by (simp add: f64_array_div_def f64_defs fl_evals)

lemma np_std_underflow: "np_std [1 / 2 ^ 600, 3 / 2 ^ 600] = Inr 0"
  unfolding np_std_def by (simp add: f64_defs fl_evals)

section \<open>Lemmas: wavelet power spectrum\<close>

lemma div_rows_error: "div_rows a col = Inl e \<Longrightarrow> 0 \<notin> set col \<Longrightarrow> e = ValueError"
proof (induction a col rule: div_rows.induct)
  case 1
  then show ?case by simp
next
  case (2 row rws s ss)
  have r: "np_div_scalar row s = Inr (map (\<lambda>x. x / s) row)"
    using "2.prems" by (simp add: np_div_scalar_def)
  from "2.prems" r "2.IH" [OF r] show ?case by (auto split: sum.splits)
qed simp_all

lemma div_by_column_error:
  assumes "div_by_column a col = Inl e" and "0 \<notin> set col"
  shows "e = ValueError"
proof (cases "length col = length a")
  case True
  with assms div_rows_error show ?thesis by (simp add: div_by_column_def)
next
  case False
  show ?thesis
  proof (cases "length col = 1")
    case True
    then obtain c where c: "col = [c]" by (cases col) auto
    with assms(2) have "0 \<notin> set (replicate (length a) (hd col))" by auto
    with assms(1) False True div_rows_error show ?thesis
      by (simp add: div_by_column_def)
  next
    case f: False
    with assms(1) False show ?thesis by (simp add: div_by_column_def)
  qed
qed


lemma compute_wavelet_power_spectrum_unfold:
  assumes "np_std mydata = Inr std" and "f64_array_div mydata std = Inr dat_norm"
    and "r = cwt dat_norm dt (1 / 12) (2 * dt) (8 / (1 / 12))"
  shows "compute_wavelet_power_spectrum cwt mydata dt =
     (case np_scalar_div 1 (cwt_freqs r) of
        Inl e \<Rightarrow> Inl e
      | Inr period \<Rightarrow>
          (case div_by_column (map (map (\<lambda>z. (cmod z) ^ 2)) (cwt_wave r)) (cwt_scales r) of
             Inl e \<Rightarrow> Inl e
           | Inr p1 \<Rightarrow> Inr (period, p1, cwt_wave r, cwt_coi r)))"
  by (simp only: compute_wavelet_power_spectrum_def assms Let_def sum.case)


lemma cwt_shapeD:
  assumes "cwt_shape cwt"
  shows "length (cwt_wave (cwt x dt dj s0 J)) = nat \<lfloor>J\<rfloor> + 1"
    and "row \<in> set (cwt_wave (cwt x dt dj s0 J)) \<Longrightarrow> length row = length x"
    and "length (cwt_scales (cwt x dt dj s0 J)) = nat \<lfloor>J\<rfloor> + 1"
    and "length (cwt_freqs (cwt x dt dj s0 J)) = nat \<lfloor>J\<rfloor> + 1"
  using assms unfolding cwt_shape_def by blast+

lemma cwt_positiveD:
  assumes "cwt_positive cwt" and "0 < s0"
  shows "0 \<notin> set (cwt_scales (cwt x dt dj s0 J))"
    and "0 \<notin> set (cwt_freqs (cwt x dt dj s0 J))"
proof -
  from assms have "\<forall>s \<in> set (cwt_scales (cwt x dt dj s0 J)). 0 < s"
    and "\<forall>f \<in> set (cwt_freqs (cwt x dt dj s0 J)). 0 < f"
    unfolding cwt_positive_def by blast+
  then show "0 \<notin> set (cwt_scales (cwt x dt dj s0 J))"
    and "0 \<notin> set (cwt_freqs (cwt x dt dj s0 J))"
    by (meson less_irrefl)+
qed

lemma compute_wavelet_power_spectrum_returns:
  assumes shape: "cwt_shape cwt" and pos: "cwt_positive cwt" and dt: "0 < dt"
    and s: "np_std mydata = Inr s" and dn: "f64_array_div mydata s = Inr dat_norm"
  shows "\<exists>res. compute_wavelet_power_spectrum cwt mydata dt = Inr res"
proof -
  define r where "r = cwt dat_norm dt (1 / 12) (2 * dt) (8 / (1 / 12))"
  define p0 where "p0 = map (map (\<lambda>z. (cmod z) ^ 2)) (cwt_wave r)"
  from dt have s0: "0 < 2 * dt" by simp
  have "0 \<notin> set (cwt_freqs r)" unfolding r_def by (rule cwt_positiveD(2) [OF pos s0])
  then have per: "np_scalar_div 1 (cwt_freqs r) = Inr (map (\<lambda>x. 1 / x) (cwt_freqs r))"
    by (simp add: np_scalar_div_def)
  have len: "length (cwt_scales r) = length p0"
    unfolding r_def p0_def by (simp only: cwt_shapeD(1,3) [OF shape] length_map)
  have nz: "0 \<notin> set (cwt_scales r)" unfolding r_def by (rule cwt_positiveD(1) [OF pos s0])
  from div_rows_defined [OF len nz] obtain q where "div_rows p0 (cwt_scales r) = Inr q" ..
  then have q: "div_by_column p0 (cwt_scales r) = Inr q"
    using len by (simp add: div_by_column_def)
  show ?thesis
    unfolding compute_wavelet_power_spectrum_unfold [where cwt = cwt, OF s dn r_def]
    by (simp only: per q [unfolded p0_def] sum.case) blast
qed

lemma compute_wavelet_power_spectrum_no_zero_division:
  assumes pos: "cwt_positive cwt" and dt: "0 < dt"
    and s: "np_std mydata = Inr std" and nz: "std \<noteq> 0"
  shows "compute_wavelet_power_spectrum cwt mydata dt \<noteq> Inl FloatingPointError"
proof (cases "f64_array_div mydata std")
  case (Inl e)
  with f64_array_div_error [OF Inl nz] show ?thesis
    unfolding compute_wavelet_power_spectrum_def s by simp
next
  case (Inr dat_norm)
  define r where "r = cwt dat_norm dt (1 / 12) (2 * dt) (8 / (1 / 12))"
  define p0 where "p0 = map (map (\<lambda>z. (cmod z) ^ 2)) (cwt_wave r)"
  from dt have s0: "0 < 2 * dt" by simp
  have "0 \<notin> set (cwt_freqs r)" unfolding r_def by (rule cwt_positiveD(2) [OF pos s0])
  then have per: "np_scalar_div 1 (cwt_freqs r) = Inr (map (\<lambda>x. 1 / x) (cwt_freqs r))"
    by (simp add: np_scalar_div_def)
  have nzs: "0 \<notin> set (cwt_scales r)" unfolding r_def by (rule cwt_positiveD(1) [OF pos s0])
  show ?thesis
  proof (cases "div_by_column p0 (cwt_scales r)")
    case l: (Inl e)
    from div_by_column_error [OF l nzs] l show ?thesis
      unfolding compute_wavelet_power_spectrum_unfold [where cwt = cwt, OF s Inr r_def]
      by (simp only: per l [unfolded p0_def] sum.case) simp
  next
    case rr: (Inr q)
    show ?thesis
      unfolding compute_wavelet_power_spectrum_unfold [where cwt = cwt, OF s Inr r_def]
      by (simp only: per rr [unfolded p0_def] sum.case) simp
  qed
qed

lemma cwt_standin_shape: "cwt_shape cwt_standin"
  by (simp add: cwt_shape_def cwt_standin_def)

lemma cwt_standin_positive: "cwt_positive cwt_standin"
  by (simp add: cwt_positive_def cwt_standin_def)

section \<open>Lemmas: the first failing period\<close>

lemma envelope_pick_loop_array_length:
  assumes "envelope_pick_loop bp envelope iZRT ti st Ts i out h = (Inr p, h1)"
    and "i + length Ts \<le> length out'"
  shows "\<exists>p'. envelope_pick_loop bp envelope iZRT ti st Ts i out' h = (Inr p', h1)"
  using assms
proof (induction Ts arbitrary: i out out' h)
  case Nil
  then show ?case by simp
next
  case (Cons T Ts)
  obtain res h' where b: "envelope_pick_body bp envelope iZRT ti st T h = (res, h')"
    by fastforce
  show ?case
  proof (cases res)
    case (Inl err)
    with b Cons.prems(1) show ?thesis by simp
  next
    case (Inr t)
    from Cons.prems(1) b Inr
    have rec: "envelope_pick_loop bp envelope iZRT ti st Ts (Suc i) (out[i := t]) h'
        = (Inr p, h1)"
      by (cases "i < length out") simp_all
    from Cons.prems(2) have i: "i < length out'"
      and l: "Suc i + length Ts \<le> length (out'[i := t])"
      by simp_all
    from Cons.IH [OF rec l] b Inr i show ?thesis by simp
  qed
qed

lemma envelope_pick_loop_append:
  assumes "envelope_pick_loop bp envelope iZRT ti st pre i out h = (Inr p1, h1)"
  shows "envelope_pick_loop bp envelope iZRT ti st (pre @ rest) i out h =
         envelope_pick_loop bp envelope iZRT ti st rest (i + length pre) p1 h1"
  using assms
proof (induction pre arbitrary: i out h)
  case Nil
  then show ?case by simp
next
  case (Cons T Ts)
  obtain res h' where b: "envelope_pick_body bp envelope iZRT ti st T h = (res, h')"
    by fastforce
  show ?case
  proof (cases res)
    case (Inl err)
    with b Cons.prems show ?thesis by simp
  next
    case (Inr t)
    show ?thesis
    proof (cases "i < length out")
      case True
      from Cons.prems b Inr True
      have rec: "envelope_pick_loop bp envelope iZRT ti st Ts (Suc i) (out[i := t]) h'
          = (Inr p1, h1)"
        by simp
      from Cons.IH [OF rec] b Inr True show ?thesis by simp
    next
      case False
      with Cons.prems b Inr show ?thesis by simp
    qed
  qed
qed

lemma envelope_pick_body_filter_error:
  assumes "T \<noteq> 0" and "filter_traces bp (0.85 / T) (1.15 / T) (h ! st) = (Some e, s)"
  shows "envelope_pick_body bp envelope iZRT ti st T h = (Inl e, h @ [s])"
proof -
  have "stream_filter bp (0.85 / T) (1.15 / T) (length h) (h @ [h ! st]) = (Some e, h @ [s])"
    unfolding stream_filter_def using assms(2) by simp
  then show ?thesis
    unfolding envelope_pick_body_def stream_copy_def prod.case using assms(1) by simp
qed

lemma envelope_picker_first_failure:
  assumes st: "st < length h"
    and pre: "envelope_picker bp envelope iZRT ti st pre h = (Inr picked, h1)"
    and T: "T \<noteq> 0"
    and f: "filter_traces bp (0.85 / T) (1.15 / T) (h ! st) = (Some e, s)"
  shows "envelope_picker bp envelope iZRT ti st (pre @ T # post) h = (Inl e, h1 @ [s])"
proof -
  let ?out = "replicate (length (pre @ T # post)) (0 :: real)"
  have "0 + length pre \<le> length ?out" by simp
  from envelope_pick_loop_array_length [OF pre [unfolded envelope_picker_def] this]
  obtain p' where p': "envelope_pick_loop bp envelope iZRT ti st pre 0 ?out h = (Inr p', h1)"
    by blast
  have "heap_extends h h1"
    using envelope_pick_loop_extends [of h bp envelope iZRT ti st pre 0 ?out] p' by simp
  from heap_extends_nth [OF this st] have same: "h1 ! st = h ! st" .
  have b: "envelope_pick_body bp envelope iZRT ti st T h1 = (Inl e, h1 @ [s])"
    by (rule envelope_pick_body_filter_error [OF T]) (simp only: same f)
  show ?thesis
    unfolding envelope_picker_def envelope_pick_loop_append [OF p']
    by (simp add: b)
qed

lemma envelope_pick_body_store_length:
  "length (snd (envelope_pick_body bp envelope iZRT ti st T h)) = length h + 1"
proof -
  obtain eo h2 where f:
    "stream_filter bp (0.85 / T) (1.15 / T) (length h) (h @ [h ! st]) = (eo, h2)"
    by fastforce
  then have "length h2 = length h + 1"
    by (auto simp: stream_filter_def split: prod.splits)
  moreover have "length (h @ [h ! st]) = length h + 1" by simp
  ultimately show ?thesis
    using envelope_pick_body_heap [OF stream_copy_def f, of envelope iZRT ti] by metis
qed

lemma envelope_pick_loop_store_length:
  assumes "envelope_pick_loop bp envelope iZRT ti st Ts i out h = (Inr p, h1)"
  shows "length h1 = length h + length Ts"
  using assms
proof (induction Ts arbitrary: i out h)
  case Nil
  then show ?case by simp
next
  case (Cons T Ts)
  obtain res h' where b: "envelope_pick_body bp envelope iZRT ti st T h = (res, h')"
    by fastforce
  from envelope_pick_body_store_length [of bp envelope iZRT ti st T h] b
  have l: "length h' = length h + 1" by simp
  show ?case
  proof (cases res)
    case (Inl err)
    with b Cons.prems show ?thesis by simp
  next
    case (Inr t)
    from Cons.prems b Inr
    have rec: "envelope_pick_loop bp envelope iZRT ti st Ts (Suc i) (out[i := t]) h'
        = (Inr p, h1)"
      by (cases "i < length out") simp_all
    from Cons.IH [OF rec] l show ?thesis by simp
  qed
qed

section \<open>The claims\<close>

subsection \<open>Wavelet arrival picker\<close>

text \<open>
  Claim C1 says that for every time axis and all window bounds each picked time lies
  within \<open>[tmin, tmax]\<close>, and the function's own comment says that the arrival time
  should be greater than \<open>tmin\<close>. The function does not do that: it starts the search
  at the sample nearest to \<open>tmin\<close>, and that sample can lie before \<open>tmin\<close>. On a time
  axis sampled every 500 s, with the default window \<open>[1050, 3000]\<close>, the nearest sample
  is the one at 1000 s (index 2), and when the power of a period peaks there the function
  returns 1000, which is less than \<open>tmin = 1050\<close>.
\<close>

theorem pick_below_window_start:
  "pickArrivalWavelet_default [0, 500, 1000, 1500, 2000, 2500, 3000, 3500]
     \<lparr>ncols = 8, rows = [[0, 0, 9, 1, 1, 1, 0, 0]]\<rparr> [10] = Inr [1000] \<and>
   (1000 :: real) < 1050 \<and>
   nearest_index [0, 500, 1000, 1500, 2000, 2500, 3000, 3500] 1050 = Inr 2"
  by (simp add: pickArrivalWavelet_default_def pickArrivalWavelet_def amax_axis1_def
      nearest_index_def np_argmin_def argmax_axis1_def slice_cols_def)

text \<open>
  Claim C10, as amended: whenever \<open>pickArrivalWavelet\<close> returns, the result has one
  entry per period and the power spectrum has at most that many rows. The entry of every
  row \<open>i\<close> of the power spectrum is \<open>ti[j]\<close> for some index \<open>j\<close> with
  \<open>idtmin \<le> j < idtmax\<close>, where \<open>idtmin\<close> and \<open>idtmax\<close> are the indices of the samples
  of \<open>ti\<close> nearest to \<open>tmin\<close> and \<open>tmax\<close>; the entries beyond the rows of the power
  spectrum are zero. When there is one period per row, as for the arrays that
  \<open>compute_wavelet_power_spectrum\<close> returns, every returned time is such a sample.
\<close>

theorem picked_time_is_window_sample:
  assumes "pickArrivalWavelet ti power_arr period tmin tmax = Inr picks"
  shows "\<exists>idtmin idtmax.
     nearest_index ti tmin = Inr idtmin \<and> nearest_index ti tmax = Inr idtmax \<and>
     (\<forall>k < length ti. \<bar>ti ! idtmin - tmin\<bar> \<le> \<bar>ti ! k - tmin\<bar>) \<and>
     (\<forall>k < length ti. \<bar>ti ! idtmax - tmax\<bar> \<le> \<bar>ti ! k - tmax\<bar>) \<and>
     length picks = length period \<and> length (rows power_arr) \<le> length period \<and>
     (\<forall>i < length (rows power_arr).
        \<exists>j. idtmin \<le> j \<and> j < idtmax \<and> j < length ti \<and> picks ! i = ti ! j) \<and>
     (\<forall>i. length (rows power_arr) \<le> i \<and> i < length period \<longrightarrow> picks ! i = 0) \<and>
     (length period = length (rows power_arr) \<longrightarrow>
        (\<forall>t \<in> set picks. \<exists>j. idtmin \<le> j \<and> j < idtmax \<and> j < length ti \<and> t = ti ! j))"
proof -
  from assms obtain idtmin idtmax where
    lo: "nearest_index ti tmin = Inr idtmin" and hi: "nearest_index ti tmax = Inr idtmax"
    and win: "idtmin < idtmax"
    and loop: "pick_loop ti
        (map (\<lambda>row. argmax_list (take (idtmax - idtmin) (drop idtmin row)) + idtmin)
           (rows power_arr)) 0 (replicate (length period) 0) = Inr picks"
    using pickArrivalWavelet_Inr by blast
  let ?idm = "\<lambda>row. argmax_list (take (idtmax - idtmin) (drop idtmin row)) + idtmin"
  from pick_loop_Inr [OF loop] have len: "length picks = length period"
    and each: "\<forall>k < length (rows power_arr).
       ?idm (rows power_arr ! k) < length ti \<and> picks ! k = ti ! ?idm (rows power_arr ! k)"
    by auto
  from pick_loop_rest [OF loop]
  have le: "length (rows power_arr) \<le> length period"
    and rest: "\<forall>i. length (rows power_arr) \<le> i \<and> i < length period \<longrightarrow> picks ! i = 0"
    by (cases "rows power_arr = []", simp_all)
  have rng: "idtmin \<le> ?idm row \<and> ?idm row < idtmax" for row
  proof (cases "take (idtmax - idtmin) (drop idtmin row) = []")
    case True
    then show ?thesis using win by simp
  next
    case False
    from argmax_list_less [OF False]
    have "argmax_list (take (idtmax - idtmin) (drop idtmin row)) < idtmax - idtmin" by simp
    then show ?thesis by simp
  qed
  have rowwise: "\<forall>i < length (rows power_arr).
        \<exists>j. idtmin \<le> j \<and> j < idtmax \<and> j < length ti \<and> picks ! i = ti ! j"
    using each rng by blast
  have all: "\<forall>t \<in> set picks. \<exists>j. idtmin \<le> j \<and> j < idtmax \<and> j < length ti \<and> t = ti ! j"
    if eq: "length period = length (rows power_arr)"
  proof
    fix t assume "t \<in> set picks"
    then obtain i where "i < length picks" "t = picks ! i" by (metis in_set_conv_nth)
    with rowwise len eq show "\<exists>j. idtmin \<le> j \<and> j < idtmax \<and> j < length ti \<and> t = ti ! j"
      by simp
  qed
  from lo hi len le rowwise rest all nearest_index_Inr(2) [OF lo] nearest_index_Inr(2) [OF hi]
  show ?thesis by blast
qed

theorem picked_time_is_window_sample_witness:
  "pickArrivalWavelet [0, 500, 1000, 1500, 2000, 2500, 3000, 3500]
     \<lparr>ncols = 8, rows = [[0, 0, 1, 1, 7, 1, 9, 0]]\<rparr> [10] 1050 3000 = Inr [2000] \<and>
   nearest_index [0, 500, 1000, 1500, 2000, 2500, 3000, 3500] 1050 = Inr 2 \<and>
   nearest_index [0, 500, 1000, 1500, 2000, 2500, 3000, 3500] 3000 = Inr 6 \<and>
   (\<exists>j. 2 \<le> j \<and> j < 6 \<and> [2000] ! 0 = [0, 500, 1000, 1500, 2000, 2500, 3000, 3500 :: real] ! j)"
proof -
  let ?ti = "[0, 500, 1000, 1500, 2000, 2500, 3000, 3500 :: real]"
  let ?pw = "\<lparr>ncols = 8, rows = [[0, 0, 1, 1, 7, 1, 9, 0 :: real]]\<rparr>"
  have run: "pickArrivalWavelet ?ti ?pw [10] 1050 3000 = Inr [2000]"
    by (simp add: pickArrivalWavelet_def amax_axis1_def nearest_index_def np_argmin_def
        argmax_axis1_def slice_cols_def)
  have lo: "nearest_index ?ti 1050 = Inr 2" and hi: "nearest_index ?ti 3000 = Inr 6"
    by (simp_all add: nearest_index_def np_argmin_def)
  from picked_time_is_window_sample [OF run] lo hi
  have "\<forall>t \<in> set [2000 :: real]. \<exists>j. 2 \<le> j \<and> j < 6 \<and> j < length ?ti \<and> t = ?ti ! j"
    by auto
  then have "\<exists>j. 2 \<le> j \<and> j < 6 \<and> [2000] ! 0 = ?ti ! j" by auto
  then show ?thesis using run lo hi by blast
qed

text \<open>
  Claim C10 as stated says that for every input each returned time is a sample of the time
  axis. With two periods and a power spectrum of one row the loop assigns the first entry
  only; the second stays at the zero that \<open>np.zeros_like\<close> put there, and zero is not a
  sample of this time axis.
\<close>

theorem unassigned_pick_is_zero:
  "pickArrivalWavelet [10, 20, 30] \<lparr>ncols = 3, rows = [[1, 2, 3]]\<rparr> [1, 2] 10 30 = Inr [20, 0] \<and>
   (0 :: real) \<notin> set [10, 20, 30]"
  by (simp add: pickArrivalWavelet_def amax_axis1_def nearest_index_def np_argmin_def
      argmax_axis1_def slice_cols_def)

subsection \<open>Group velocity\<close>

text \<open>
  Claim C2, as amended: for a positive distance \<open>d\<close> and positive picked arrival times
  whose quotients \<open>d / t\<close> lie in the range of the normal doubles, the group velocity at
  each period is the double nearest to \<open>d / t\<close>; it differs from \<open>d / t\<close> by at most the
  fraction \<open>1 / 2 ^ 53\<close> of it. Multiplying it by the picked time, in doubles, gives the
  distance back up to the relative error \<open>2 / 2 ^ 53 + 1 / 2 ^ 106\<close>.
\<close>

theorem group_velocity_rounded_quotient:
  fixes d :: real
  assumes "0 < d" and "1 / 2 ^ 1021 \<le> d" and "d < 2 ^ 1022"
    and "\<forall>t \<in> set picks. 0 < t \<and> 1 / 2 ^ 1022 \<le> d / t \<and> d / t < 2 ^ 1023"
  shows "\<exists>v. group_velocity_from_wavelet d picks = Inr v \<and> length v = length picks \<and>
     (\<forall>i < length picks.
        v ! i = fl (d / picks ! i) \<and>
        \<bar>v ! i - d / picks ! i\<bar> \<le> (d / picks ! i) / 2 ^ 53 \<and>
        (\<exists>w. f64_mul (v ! i) (picks ! i) = Inr w \<and>
             \<bar>w - d\<bar> \<le> d * (2 / 2 ^ 53 + 1 / 2 ^ 106)))"
proof -
  have each: "f64_div d t = Inr (fl (d / t)) \<and> \<bar>fl (d / t) - d / t\<bar> \<le> (d / t) / 2 ^ 53 \<and>
      (\<exists>w. f64_mul (fl (d / t)) t = Inr w \<and> \<bar>w - d\<bar> \<le> d * (2 / 2 ^ 53 + 1 / 2 ^ 106))"
    if t: "t \<in> set picks" for t
  proof -
    from assms(4) t have tp: "0 < t" and lo: "1 / 2 ^ 1022 \<le> d / t" and hi: "d / t < 2 ^ 1023"
      by auto
    have q: "0 < d / t" using assms(1) tp by simp
    then have aq: "\<bar>d / t\<bar> = d / t" by (simp only: abs_of_pos)
    have lo': "1 / 2 ^ 1022 \<le> \<bar>d / t\<bar>" and hi': "\<bar>d / t\<bar> < 2 ^ 1023"
      using lo hi by (simp_all only: aq)
    note r1 = f64_round_normal(1) [OF lo' hi']
      and e1 = f64_round_normal(2) [OF lo' hi', unfolded aq]
    define v where "v = fl (d / t)"
    define u :: real where "u = 1 / 2 ^ 53"
    have u: "0 < u" "u \<le> 1 / 2" by (simp_all add: u_def)
    have "\<bar>v * t - d\<bar> = \<bar>v - d / t\<bar> * t"
    proof -
      have "v * t - d = (v - d / t) * t" using tp by (simp add: algebra_simps)
      then show ?thesis using tp by (simp add: abs_mult)
    qed
    also have "\<dots> \<le> (d / t) / 2 ^ 53 * t"
      using e1 tp unfolding v_def by (intro mult_right_mono) simp_all
    also have "\<dots> = d * u" using tp by (simp add: u_def)
    finally have e2: "\<bar>v * t - d\<bar> \<le> d * u" .
    have du: "0 \<le> d * u" "d * u \<le> d * (1 / 2)"
      using assms(1) u by (simp_all add: mult_left_mono)
    have vlo: "d - d * u \<le> v * t" and vhi: "v * t \<le> d + d * u"
      using e2 by linarith+
    have half: "d / 2 \<le> v * t" using vlo du by simp
    have "1 / 2 ^ 1022 \<le> d / 2" using assms(2) by simp
    with half have n1: "1 / 2 ^ 1022 \<le> \<bar>v * t\<bar>" by linarith
    have nn: "0 \<le> v * t" using half assms(1) by linarith
    have "v * t \<le> d * 2" using vhi du assms(1) by linarith
    moreover have "d * 2 < 2 ^ 1023" using assms(3) by simp
    ultimately have n2: "\<bar>v * t\<bar> < 2 ^ 1023" using nn by linarith
    note r2 = f64_round_normal(1) [OF n1 n2]
    have "\<bar>fl (v * t) - v * t\<bar> \<le> \<bar>v * t\<bar> * u"
      using f64_round_normal(2) [OF n1 n2] by (simp add: u_def)
    also have "\<dots> \<le> (d + d * u) * u"
      using vhi nn u by (intro mult_right_mono) simp_all
    finally have e4: "\<bar>fl (v * t) - v * t\<bar> \<le> (d + d * u) * u" .
    have "\<bar>fl (v * t) - d\<bar> \<le> \<bar>fl (v * t) - v * t\<bar> + \<bar>v * t - d\<bar>" by linarith
    also have "\<dots> \<le> (d + d * u) * u + d * u" using e4 e2 by linarith
    also have "\<dots> = d * (2 * u + u * u)" by (simp add: algebra_simps)
    also have "2 * u + u * u = 2 / 2 ^ 53 + 1 / 2 ^ 106" by (simp add: u_def)
    finally have "\<bar>fl (v * t) - d\<bar> \<le> d * (2 / 2 ^ 53 + 1 / 2 ^ 106)" .
    with r2 have "\<exists>w. f64_mul v t = Inr w \<and> \<bar>w - d\<bar> \<le> d * (2 / 2 ^ 53 + 1 / 2 ^ 106)"
      unfolding f64_mul_def by blast
    moreover have "f64_div d t = Inr (fl (d / t))"
      using r1 tp unfolding f64_div_def by simp
    ultimately show ?thesis using e1 unfolding v_def by blast
  qed
  then have "\<forall>t \<in> set picks. f64_div d t = Inr (fl (d / t))" by blast
  from collect_map_Inr [OF this]
  have run: "group_velocity_from_wavelet d picks = Inr (map (\<lambda>t. fl (d / t)) picks)"
    by (simp add: group_velocity_from_wavelet_def)
  show ?thesis
    unfolding run using each by (intro exI [of _ "map (\<lambda>t. fl (d / t)) picks"]) simp
qed

theorem group_velocity_rounded_quotient_witness:
  "\<exists>v. group_velocity_from_wavelet 5256 [1200, 1500] = Inr v \<and> length v = 2 \<and>
     v ! 0 = fl (5256 / 1200) \<and> \<bar>v ! 0 - 5256 / 1200\<bar> \<le> (5256 / 1200) / 2 ^ 53 \<and>
     (\<exists>w. f64_mul (v ! 0) 1200 = Inr w \<and> \<bar>w - 5256\<bar> \<le> 5256 * (2 / 2 ^ 53 + 1 / 2 ^ 106))"
proof -
  have h1: "(0::real) < 5256" and h2: "1 / 2 ^ 1021 \<le> (5256::real)"
    and h3: "(5256::real) < 2 ^ 1022"
    and h4: "\<forall>t \<in> set [1200, 1500 :: real].
       0 < t \<and> 1 / 2 ^ 1022 \<le> 5256 / t \<and> 5256 / t < 2 ^ 1023"
    by simp_all
  from group_velocity_rounded_quotient [OF h1 h2 h3 h4] obtain v where
    a: "group_velocity_from_wavelet 5256 [1200, 1500] = Inr v"
    and b: "length v = length [1200, 1500 :: real]"
    and c: "\<forall>i < length [1200, 1500 :: real].
        v ! i = fl (5256 / [1200, 1500] ! i) \<and>
        \<bar>v ! i - 5256 / [1200, 1500] ! i\<bar> \<le> (5256 / [1200, 1500] ! i) / 2 ^ 53 \<and>
        (\<exists>w. f64_mul (v ! i) ([1200, 1500] ! i) = Inr w \<and>
             \<bar>w - 5256\<bar> \<le> 5256 * (2 / 2 ^ 53 + 1 / 2 ^ 106))"
    by blast
  from c [rule_format, of 0] a b show ?thesis by (intro exI [of _ v]) auto
qed

text \<open>
  Claim C2 as stated says that the velocity equals \<open>d / t\<close> exactly and that multiplying
  it by the picked time gives back the distance. For \<open>d = 1\<close> and \<open>t = 49\<close> the computed
  velocity is the double \<open>5882252574524729 / 2 ^ 58\<close>, which is not \<open>1 / 49\<close>, and the
  product of that double and 49, rounded, is \<open>1 - 1 / 2 ^ 53\<close>, which is not 1.
\<close>

theorem group_velocity_roundtrip_inexact:
  "group_velocity_from_wavelet 1 [49] = Inr [5882252574524729 / 2 ^ 58] \<and>
   (5882252574524729 / 2 ^ 58 :: real) \<noteq> 1 / 49 \<and>
   f64_mul (5882252574524729 / 2 ^ 58) 49 = Inr (1 - 1 / 2 ^ 53) \<and>
   (1 - 1 / 2 ^ 53 :: real) \<noteq> 1"
proof -
  have a: "fl (1 / 49) = 5882252574524729 / 2 ^ 58"
    by (subst fl_eval_neg [where k = 6]) (simp_all add: round_half_even_eval)
  have b: "fl (5882252574524729 / 2 ^ 58 * 49) = 1 - 1 / 2 ^ 53"
    by (subst fl_eval_neg [where k = 1]) (simp_all add: round_half_even_eval)
  have "group_velocity_from_wavelet 1 [49] = Inr [5882252574524729 / 2 ^ 58]"
    by (simp only: group_velocity_from_wavelet_def f64_div_def f64_round_def a list.map)
      (simp add: f64_max_def)
  moreover have "f64_mul (5882252574524729 / 2 ^ 58) 49 = Inr (1 - 1 / 2 ^ 53)"
    by (simp only: f64_mul_def f64_round_def b) (simp add: f64_max_def)
  ultimately show ?thesis by simp
qed

subsection \<open>Phase-velocity lag filtering\<close>

text \<open>
  Claim C3: for an inter-station distance \<open>D > 0\<close> and a maximum velocity \<open>Vmax > 0\<close>,
  the lag filter keeps exactly the lags strictly greater than \<open>D / Vmax\<close>, in their
  order: no lag less than or equal to \<open>D / Vmax\<close> survives, every surviving lag is turned
  into the phase velocity \<open>D / lag\<close>, and the correlation array keeps the same columns.
\<close>

theorem lag_filter_keeps_admissible_lags:
  fixes D Vmax :: real
  assumes "0 < D" and "0 < Vmax"
    and "\<forall>row \<in> set cc_data. length row = length atshift"
  shows "\<exists>out. lag_filter D Vmax atshift cc_data = Inr out \<and>
           lf_atshift out = filter (\<lambda>l. D / Vmax < l) atshift \<and>
           (\<forall>l \<in> set atshift. l \<in> set (lf_atshift out) \<longleftrightarrow> D / Vmax < l) \<and>
           (\<forall>l \<in> set (lf_atshift out). \<not> l \<le> D / Vmax) \<and>
           lf_V_phase out = map (\<lambda>l. D / l) (lf_atshift out) \<and>
           lf_cc_data out = map (\<lambda>row. map (\<lambda>i. row ! i) (where_gt atshift (D / Vmax))) cc_data"
  using lag_filter_result [OF assms] by auto

theorem lag_filter_keeps_admissible_lags_witness:
  "\<exists>out. lag_filter 14 7 (atshift_of 2 2) [[1, 2, 3, 4, 5]] = Inr out \<and>
     lf_atshift out = [4] \<and> lf_V_phase out = [7 / 2] \<and> lf_cc_data out = [[5]]"
proof -
  have h1: "(0::real) < 14" and h2: "(0::real) < 7"
    and h3: "\<forall>row \<in> set [[1, 2, 3, 4, 5 :: real]]. length row = length (atshift_of 2 2)"
    by (simp_all add: example_lags)
  from lag_filter_keeps_admissible_lags [OF h1 h2 h3] obtain out where
    "lag_filter 14 7 (atshift_of 2 2) [[1, 2, 3, 4, 5]] = Inr out"
    "lf_atshift out = filter (\<lambda>l. 14 / 7 < l) (atshift_of 2 2)"
    "lf_V_phase out = map (\<lambda>l. 14 / l) (lf_atshift out)"
    by blast
  then show ?thesis using example_lag_filter by (auto simp: example_lags)
qed

text \<open>
  Claim C8: for \<open>D > 0\<close> and \<open>Vmax > 0\<close>, every surviving lag is strictly positive, so
  the division \<open>D / lag\<close> never divides by zero, and every phase velocity lies strictly
  between 0 and \<open>Vmax\<close>.
\<close>

theorem surviving_lags_positive:
  fixes D Vmax :: real
  assumes "0 < D" and "0 < Vmax"
  shows "lag_filter D Vmax atshift cc_data \<noteq> Inl ZeroDivisionError \<and>
         lag_filter D Vmax atshift cc_data \<noteq> Inl FloatingPointError \<and>
         (\<forall>out. lag_filter D Vmax atshift cc_data = Inr out \<longrightarrow>
            (\<forall>l \<in> set (lf_atshift out). 0 < l) \<and>
            length (lf_V_phase out) = length (lf_atshift out) \<and>
            (\<forall>i < length (lf_atshift out).
               lf_V_phase out ! i = D / lf_atshift out ! i \<and>
               0 < lf_V_phase out ! i \<and> lf_V_phase out ! i < Vmax))"
proof -
  have e1: "lag_filter D Vmax atshift cc_data \<noteq> Inl ZeroDivisionError"
    using lag_filter_no_division_error [OF assms] by fastforce
  have e2: "lag_filter D Vmax atshift cc_data \<noteq> Inl FloatingPointError"
    using lag_filter_no_division_error [OF assms] by fastforce
  have ok: "(\<forall>l \<in> set (lf_atshift out). 0 < l) \<and>
            length (lf_V_phase out) = length (lf_atshift out) \<and>
            (\<forall>i < length (lf_atshift out).
               lf_V_phase out ! i = D / lf_atshift out ! i \<and>
               0 < lf_V_phase out ! i \<and> lf_V_phase out ! i < Vmax)"
    if run: "lag_filter D Vmax atshift cc_data = Inr out" for out
  proof -
    note lags = lag_filter_Inr(2) [OF run] and vel = lag_filter_Inr(3) [OF run]
    have above: "D / Vmax < l" if "l \<in> set (lf_atshift out)" for l
      using that unfolding lags by simp
    have pos: "\<forall>l \<in> set (lf_atshift out). 0 < l"
      using lag_above_bound_pos(1) [OF assms] above by blast
    have len: "length (lf_V_phase out) = length (lf_atshift out)"
      unfolding vel by simp
    have "lf_V_phase out ! i = D / lf_atshift out ! i \<and>
               0 < lf_V_phase out ! i \<and> lf_V_phase out ! i < Vmax"
      if i: "i < length (lf_atshift out)" for i
    proof -
      from i have "D / Vmax < lf_atshift out ! i" using above by simp
      from lag_above_bound_pos(2,3) [OF assms this] i show ?thesis
        by (subst (1 2 3) vel) simp
    qed
    with pos len show ?thesis by blast
  qed
  from e1 e2 ok show ?thesis by blast
qed

theorem surviving_lags_positive_witness:
  "lag_filter 14 7 [-4, -2, 0, 2, 4] [[1, 2, 3, 4, 5]] =
     Inr \<lparr>lf_atshift = [4], lf_cc_data = [[5]], lf_V_phase = [7 / 2]\<rparr> \<and>
   (0::real) < 4 \<and> (0::real) < 7 / 2 \<and> (7 / 2 :: real) < 7"
proof -
  have h1: "(0::real) < 14" and h2: "(0::real) < 7" by simp_all
  from surviving_lags_positive [OF h1 h2, of "[-4, -2, 0, 2, 4]" "[[1, 2, 3, 4, 5]]"]
    example_lag_filter
  have "\<forall>i < length [4 :: real]. [7 / 2 :: real] ! i = 14 / [4] ! i \<and>
          0 < [7 / 2 :: real] ! i \<and> [7 / 2 :: real] ! i < 7"
    by simp
  then show ?thesis using example_lag_filter by simp
qed

subsection \<open>Wavelet power spectrum\<close>



text \<open>
  Claim C9, as amended: \<open>compute_wavelet_power_spectrum\<close> divides the trace by its
  computed standard deviation without a guard. When the computed standard deviation is
  zero, and when the trace is empty, the normalization is a division by zero. When it is
  not zero, the normalization divides by no zero, its only possible failure is a
  quotient beyond the largest double, every normalized sample is the rounded quotient
  of the sample and the standard deviation, and, the transform keeping its shapes and
  positive scales, the function returns.
\<close>

theorem normalisation_divides_by_computed_std:
  "(np_std mydata = Inr 0 \<longrightarrow>
      compute_wavelet_power_spectrum cwt mydata dt = Inl FloatingPointError) \<and>
   (mydata = [] \<longrightarrow>
      compute_wavelet_power_spectrum cwt mydata dt = Inl FloatingPointError) \<and>
   (\<forall>std. np_std mydata = Inr std \<and> std \<noteq> 0 \<longrightarrow>
      f64_array_div mydata std \<noteq> Inl FloatingPointError \<and>
      (cwt_positive cwt \<and> 0 < dt \<longrightarrow>
         compute_wavelet_power_spectrum cwt mydata dt \<noteq> Inl FloatingPointError) \<and>
      (\<forall>dat_norm. f64_array_div mydata std = Inr dat_norm \<and>
           cwt_shape cwt \<and> cwt_positive cwt \<and> 0 < dt \<longrightarrow>
         dat_norm = map (\<lambda>x. fl (x / std)) mydata \<and>
         (\<exists>res. compute_wavelet_power_spectrum cwt mydata dt = Inr res)))"
proof (intro conjI impI allI)
  assume z: "np_std mydata = Inr 0"
  then have "mydata \<noteq> []" using np_std_Nil by auto
  from f64_array_div_zero [OF this] z
  show "compute_wavelet_power_spectrum cwt mydata dt = Inl FloatingPointError"
    unfolding compute_wavelet_power_spectrum_def by simp
next
  assume "mydata = []"
  then show "compute_wavelet_power_spectrum cwt mydata dt = Inl FloatingPointError"
    unfolding compute_wavelet_power_spectrum_def by (simp add: np_std_Nil)
next
  fix std assume "np_std mydata = Inr std \<and> std \<noteq> 0"
  then show "f64_array_div mydata std \<noteq> Inl FloatingPointError"
    using f64_array_div_error by fastforce
next
  fix std assume "np_std mydata = Inr std \<and> std \<noteq> 0" and "cwt_positive cwt \<and> 0 < dt"
  then show "compute_wavelet_power_spectrum cwt mydata dt \<noteq> Inl FloatingPointError"
    using compute_wavelet_power_spectrum_no_zero_division by blast
next
  fix std dat_norm
  assume "np_std mydata = Inr std \<and> std \<noteq> 0"
    and "f64_array_div mydata std = Inr dat_norm \<and> cwt_shape cwt \<and> cwt_positive cwt \<and> 0 < dt"
  then show "dat_norm = map (\<lambda>x. fl (x / std)) mydata"
    using f64_array_div_nonzero by blast
next
  fix std dat_norm
  assume "np_std mydata = Inr std \<and> std \<noteq> 0"
    and "f64_array_div mydata std = Inr dat_norm \<and> cwt_shape cwt \<and> cwt_positive cwt \<and> 0 < dt"
  then show "\<exists>res. compute_wavelet_power_spectrum cwt mydata dt = Inr res"
    using compute_wavelet_power_spectrum_returns by blast
qed

theorem normalisation_divides_by_computed_std_witness:
  "np_std [1, 1] = Inr 0 \<and>
   compute_wavelet_power_spectrum cwt_standin [1, 1] 1 = Inl FloatingPointError \<and>
   compute_wavelet_power_spectrum cwt_standin [] 1 = Inl FloatingPointError \<and>
   np_std [1, -1] = Inr 1 \<and> f64_array_div [1, -1] 1 = Inr [1, -1] \<and>
   compute_wavelet_power_spectrum cwt_standin [1, -1] 1 \<noteq> Inl FloatingPointError \<and>
   (\<exists>res. compute_wavelet_power_spectrum cwt_standin [1, -1] 1 = Inr res)"
proof -
  from normalisation_divides_by_computed_std [of "[1, 1]" cwt_standin 1] np_std_ones
  have a: "compute_wavelet_power_spectrum cwt_standin [1, 1] 1 = Inl FloatingPointError"
    by blast
  from normalisation_divides_by_computed_std [of "[]" cwt_standin 1]
  have b: "compute_wavelet_power_spectrum cwt_standin [] 1 = Inl FloatingPointError"
    by blast
  have pre: "np_std [1, -1] = Inr 1 \<and> (1::real) \<noteq> 0"
    "cwt_positive cwt_standin \<and> (0::real) < 1"
    "f64_array_div [1, -1] 1 = Inr [1, -1] \<and> cwt_shape cwt_standin \<and>
       cwt_positive cwt_standin \<and> (0::real) < 1"
    using np_std_pm1 f64_array_div_pm1 cwt_standin_shape cwt_standin_positive by simp_all
  from normalisation_divides_by_computed_std [of "[1, -1]" cwt_standin 1] pre
  have c: "compute_wavelet_power_spectrum cwt_standin [1, -1] 1 \<noteq> Inl FloatingPointError"
    and d: "\<exists>res. compute_wavelet_power_spectrum cwt_standin [1, -1] 1 = Inr res"
    by blast+
  from a b c d np_std_ones np_std_pm1 f64_array_div_pm1 show ?thesis by blast
qed

text \<open>
  Claim C9 as stated says that the standard deviation is zero for a constant trace and
  nonzero for a trace that is not constant. The computed one is neither. For the constant
  trace of three samples equal to the double nearest to 0.1, the rounded sum divided by 3
  is not the sample, the computed standard deviation is \<open>1 / 2 ^ 56\<close>, and the
  normalization divides by it without failing, giving samples of \<open>7205759403792794\<close>.
  For the trace \<open>[1 / 2 ^ 600, 3 / 2 ^ 600]\<close>, which is not constant, the squares of
  the deviations underflow to zero, the computed standard deviation is zero, and the
  normalization is a division by zero.
\<close>

theorem zero_std_is_not_constant_trace:
  "constant_trace
     [3602879701896397 / 2 ^ 55, 3602879701896397 / 2 ^ 55, 3602879701896397 / 2 ^ 55] \<and>
   np_std [3602879701896397 / 2 ^ 55, 3602879701896397 / 2 ^ 55, 3602879701896397 / 2 ^ 55]
     = Inr (1 / 2 ^ 56) \<and>
   f64_array_div
     [3602879701896397 / 2 ^ 55, 3602879701896397 / 2 ^ 55, 3602879701896397 / 2 ^ 55]
     (1 / 2 ^ 56) = Inr [7205759403792794, 7205759403792794, 7205759403792794] \<and>
   compute_wavelet_power_spectrum cwt_standin
     [3602879701896397 / 2 ^ 55, 3602879701896397 / 2 ^ 55, 3602879701896397 / 2 ^ 55] 1
     \<noteq> Inl FloatingPointError \<and>
   \<not> constant_trace [1 / 2 ^ 600, 3 / 2 ^ 600] \<and>
   np_std [1 / 2 ^ 600, 3 / 2 ^ 600] = Inr 0 \<and>
   compute_wavelet_power_spectrum cwt_standin [1 / 2 ^ 600, 3 / 2 ^ 600] 1
     = Inl FloatingPointError"
proof -
  let ?c = "[3602879701896397 / 2 ^ 55, 3602879701896397 / 2 ^ 55,
    3602879701896397 / 2 ^ 55 :: real]"
  let ?u = "[1 / 2 ^ 600, 3 / 2 ^ 600 :: real]"
  have a: "constant_trace ?c" by (simp add: constant_trace_def)
  have nz: "(1 / 2 ^ 56 :: real) \<noteq> 0" by simp
  have "(0::real) < 1" by simp
  from compute_wavelet_power_spectrum_no_zero_division
    [OF cwt_standin_positive this np_std_tenth nz]
  have b: "compute_wavelet_power_spectrum cwt_standin ?c 1 \<noteq> Inl FloatingPointError" .
  have c: "\<not> constant_trace ?u" by (simp add: constant_trace_def)
  have "?u \<noteq> []" by simp
  from f64_array_div_zero [OF this] np_std_underflow
  have d: "compute_wavelet_power_spectrum cwt_standin ?u 1 = Inl FloatingPointError"
    unfolding compute_wavelet_power_spectrum_def by simp
  from a b c d np_std_tenth f64_array_div_tenth np_std_underflow show ?thesis by blast
qed

subsection \<open>Band-pass filtering in the loops\<close>

text \<open>
  Claim C5, as amended: when the band-pass filter raises for the band of some period of
  the period set (as it does for a band above the Nyquist frequency), the exception leaves
  the loop of the envelope picker: the run ends with an error and returns no picks. The
  loop has no handler. When the periods before that period are processed without error,
  the run ends with the error the filter raised for it, and no period after it is
  processed: whatever periods follow, the store holds the streams it held before, one
  filtered copy for each period before the failing one, and the copy on which the filter
  raised, and nothing else.
\<close>

theorem invalid_band_aborts_run:
  assumes "st < length h"
  shows "(T \<in> set myPeriods \<and> band_fails bp T (h ! st) \<longrightarrow>
            (\<exists>e. fst (envelope_picker bp envelope iZRT ti st myPeriods h) = Inl e)) \<and>
         (\<forall>pre post picked h1 e s.
            myPeriods = pre @ T # post \<and>
            envelope_picker bp envelope iZRT ti st pre h = (Inr picked, h1) \<and> T \<noteq> 0 \<and>
            filter_traces bp (0.85 / T) (1.15 / T) (h ! st) = (Some e, s) \<longrightarrow>
            envelope_picker bp envelope iZRT ti st myPeriods h = (Inl e, h1 @ [s]) \<and>
            length (h1 @ [s]) = length h + length pre + 1)"
proof (intro conjI impI allI)
  assume "T \<in> set myPeriods \<and> band_fails bp T (h ! st)"
  then show "\<exists>e. fst (envelope_picker bp envelope iZRT ti st myPeriods h) = Inl e"
    unfolding envelope_picker_def using envelope_pick_loop_fails [OF assms] by blast
next
  fix pre post picked h1 e s
  assume a: "myPeriods = pre @ T # post \<and>
            envelope_picker bp envelope iZRT ti st pre h = (Inr picked, h1) \<and> T \<noteq> 0 \<and>
            filter_traces bp (0.85 / T) (1.15 / T) (h ! st) = (Some e, s)"
  then show "envelope_picker bp envelope iZRT ti st myPeriods h = (Inl e, h1 @ [s])"
    using envelope_picker_first_failure [OF assms] by blast
next
  fix pre post picked h1 e s
  assume a: "myPeriods = pre @ T # post \<and>
            envelope_picker bp envelope iZRT ti st pre h = (Inr picked, h1) \<and> T \<noteq> 0 \<and>
            filter_traces bp (0.85 / T) (1.15 / T) (h ! st) = (Some e, s)"
  then have "length h1 = length h + length pre"
    unfolding envelope_picker_def using envelope_pick_loop_store_length by blast
  then show "length (h1 @ [s]) = length h + length pre + 1" by simp
qed

theorem invalid_band_aborts_run_witness:
  "band_fails bandpass_standin 1 [trace_example] \<and>
   envelope_picker bandpass_standin (map abs) 0 [0, 1, 2, 3, 4] 0 [10] [[trace_example]] =
     (Inr [3], [[trace_example], [trace_example\<lparr>tr_data := [0, 1, 0, 3, 0]\<rparr>]]) \<and>
   filter_traces bandpass_standin (0.85 / 1) (1.15 / 1) [trace_example]
     = (Some ValueError, [trace_example]) \<and>
   envelope_picker bandpass_standin (map abs) 0 [0, 1, 2, 3, 4] 0 [10, 1, 20]
     [[trace_example]] =
     (Inl ValueError,
      [[trace_example], [trace_example\<lparr>tr_data := [0, 1, 0, 3, 0]\<rparr>], [trace_example]])"
proof -
  have st: "(0::nat) < length [[trace_example]]" by simp
  have f: "filter_traces bandpass_standin (0.85 / 1) (1.15 / 1) [trace_example]
      = (Some ValueError, [trace_example])"
    by (simp add: bandpass_standin_def trace_example_def)
  have pre: "[10, 1, 20] = [10] @ (1 :: real) # [20] \<and>
      envelope_picker bandpass_standin (map abs) 0 [0, 1, 2, 3, 4] 0 [10] [[trace_example]] =
        (Inr [3], [[trace_example], [trace_example\<lparr>tr_data := [0, 1, 0, 3, 0]\<rparr>]]) \<and>
      (1 :: real) \<noteq> 0 \<and>
      filter_traces bandpass_standin (0.85 / 1) (1.15 / 1) ([[trace_example]] ! 0)
        = (Some ValueError, [trace_example])"
    using envelope_picker_example f by simp
  from invalid_band_aborts_run [OF st, of 1 "[10, 1, 20]" bandpass_standin "map abs" 0
      "[0, 1, 2, 3, 4]"]
  have "\<forall>pre post picked h1 e s.
      [10, 1, 20] = pre @ (1 :: real) # post \<and>
      envelope_picker bandpass_standin (map abs) 0 [0, 1, 2, 3, 4] 0 pre [[trace_example]]
        = (Inr picked, h1) \<and> (1 :: real) \<noteq> 0 \<and>
      filter_traces bandpass_standin (0.85 / 1) (1.15 / 1) ([[trace_example]] ! 0)
        = (Some e, s) \<longrightarrow>
      envelope_picker bandpass_standin (map abs) 0 [0, 1, 2, 3, 4] 0 [10, 1, 20]
        [[trace_example]] = (Inl e, h1 @ [s]) \<and>
      length (h1 @ [s]) = length [[trace_example]] + length pre + 1"
    by blast
  from this [rule_format, OF pre]
  have "envelope_picker bandpass_standin (map abs) 0 [0, 1, 2, 3, 4] 0 [10, 1, 20]
      [[trace_example]] =
      (Inl ValueError,
       [[trace_example], [trace_example\<lparr>tr_data := [0, 1, 0, 3, 0]\<rparr>], [trace_example]])"
    by simp
  with band_fails_example envelope_picker_example f show ?thesis by blast
qed

text \<open>
  Claim C5 as stated says that the failing period is skipped and the remaining periods
  are processed. With a sample interval of 1 s the band of the period 1 s lies above the
  Nyquist frequency and the band of the period 10 s does not: the run over both periods
  ends with the filter's error, while the period 10 s alone yields its pick.
\<close>

theorem invalid_band_not_skipped:
  "fst (envelope_picker bandpass_standin (map abs) 0 [0, 1, 2, 3, 4] 0 [1, 10]
          [[trace_example]]) = Inl ValueError \<and>
   fst (envelope_picker bandpass_standin (map abs) 0 [0, 1, 2, 3, 4] 0 [10]
          [[trace_example]]) = Inr [3]"
  by (simp add: envelope_picker_def envelope_pick_body_def stream_copy_def stream_filter_def
      bandpass_standin_def trace_at_def np_argmax_def trace_example_def)

text \<open>
  Claim C6: every band-pass filtering, in the envelope picker and in the phase-velocity
  estimator, works on a copy of the stream. After either loop, however it ends, the
  original streams are the objects they were: the samples, the sample interval and the
  length of each of their traces are unchanged.
\<close>

theorem filtering_leaves_original_traces:
  assumes "st < length h" and "st2 < length h"
  shows "snd (envelope_picker bp envelope iZRT ti st myPeriods h) ! st = h ! st \<and>
         trace_summary (snd (envelope_picker bp envelope iZRT ti st myPeriods h) ! st)
           = trace_summary (h ! st) \<and>
         snd (phase_correlator bp corr iZRT nsamples st st2 myPeriods2 h) ! st = h ! st \<and>
         snd (phase_correlator bp corr iZRT nsamples st st2 myPeriods2 h) ! st2 = h ! st2 \<and>
         trace_summary (snd (phase_correlator bp corr iZRT nsamples st st2 myPeriods2 h) ! st)
           = trace_summary (h ! st) \<and>
         trace_summary (snd (phase_correlator bp corr iZRT nsamples st st2 myPeriods2 h) ! st2)
           = trace_summary (h ! st2)"
proof -
  have a: "snd (envelope_picker bp envelope iZRT ti st myPeriods h) ! st = h ! st"
    unfolding envelope_picker_def
    by (rule heap_extends_nth [OF envelope_pick_loop_extends assms(1)])
  have b: "snd (phase_correlator bp corr iZRT nsamples st st2 myPeriods2 h) ! st = h ! st"
    unfolding phase_correlator_def
    by (rule heap_extends_nth [OF phase_corr_loop_extends assms(1)])
  have c: "snd (phase_correlator bp corr iZRT nsamples st st2 myPeriods2 h) ! st2 = h ! st2"
    unfolding phase_correlator_def
    by (rule heap_extends_nth [OF phase_corr_loop_extends assms(2)])
  show ?thesis by (simp only: a b c)
qed

theorem filtering_leaves_original_traces_witness:
  "envelope_picker bandpass_standin (map abs) 0 [0, 1, 2, 3, 4] 0 [10] [[trace_example]] =
     (Inr [3], [[trace_example], [trace_example\<lparr>tr_data := [0, 1, 0, 3, 0]\<rparr>]]) \<and>
   snd (envelope_picker bandpass_standin (map abs) 0 [0, 1, 2, 3, 4] 0 [10] [[trace_example]]) ! 0
     = [trace_example] \<and>
   snd (phase_correlator bandpass_standin correlate 0 1 0 1 [10]
          [[trace_example], [trace_example\<lparr>tr_start := 5\<rparr>]]) ! 0 = [trace_example] \<and>
   snd (phase_correlator bandpass_standin correlate 0 1 0 1 [10]
          [[trace_example], [trace_example\<lparr>tr_start := 5\<rparr>]]) ! 1
     = [trace_example\<lparr>tr_start := 5\<rparr>]"
proof -
  have one: "(0::nat) < length [[trace_example]]" by simp
  have two: "(0::nat) < length [[trace_example], [trace_example\<lparr>tr_start := 5\<rparr>]]"
    "(1::nat) < length [[trace_example], [trace_example\<lparr>tr_start := 5\<rparr>]]"
    by simp_all
  from filtering_leaves_original_traces [OF one one,
      where bp = bandpass_standin and envelope = "map abs" and iZRT = 0
        and ti = "[0, 1, 2, 3, 4]" and myPeriods = "[10]"]
  have a: "snd (envelope_picker bandpass_standin (map abs) 0 [0, 1, 2, 3, 4] 0 [10]
      [[trace_example]]) ! 0 = [trace_example]"
    by simp
  from filtering_leaves_original_traces [OF two,
      where bp = bandpass_standin and corr = correlate and iZRT = 0 and nsamples = 1
        and ?myPeriods2.0 = "[10]"]
  have b: "snd (phase_correlator bandpass_standin correlate 0 1 0 1 [10]
          [[trace_example], [trace_example\<lparr>tr_start := 5\<rparr>]]) ! 0 = [trace_example]"
    and c: "snd (phase_correlator bandpass_standin correlate 0 1 0 1 [10]
          [[trace_example], [trace_example\<lparr>tr_start := 5\<rparr>]]) ! 1
     = [trace_example\<lparr>tr_start := 5\<rparr>]"
    by simp_all
  from a b c envelope_picker_example show ?thesis by blast
qed

subsection \<open>Cross-correlation\<close>

text \<open>
  Claim C7: for two traces of equal length and every lag \<open>L\<close> of the symmetric lag
  window, the normalized cross-correlation of \<open>a\<close> against \<open>b\<close> at lag \<open>L\<close> equals that of
  \<open>b\<close> against \<open>a\<close> at lag \<open>-L\<close> (exactly, over the reals).
\<close>

theorem cross_correlation_lag_symmetry:
  assumes len: "length a = length b" and ab: "correlate a b shift = Inr cab"
  shows "\<exists>cba. correlate b a shift = Inr cba \<and> length cab = 2 * shift + 1 \<and>
           length cba = 2 * shift + 1 \<and>
           (\<forall>L. - int shift \<le> L \<and> L \<le> int shift \<longrightarrow>
                cab ! nat (int shift + L) = cba ! nat (int shift - L))"
proof -
  from ab obtain ma where ma: "np_mean a = Inr ma"
    unfolding correlate_def by (cases "np_mean a") simp_all
  from ab obtain mb where mb: "np_mean b = Inr mb"
    unfolding correlate_def ma by (cases "np_mean b") simp_all
  define a0 where "a0 = map (\<lambda>x. x - ma) a"
  define b0 where "b0 = map (\<lambda>x. x - mb) b"
  define nrm where "nrm = sqrt (sum_squares a0 * sum_squares b0)"
  have nrm': "sqrt (sum_squares b0 * sum_squares a0) = nrm"
    by (simp only: nrm_def mult.commute)
  define cc where "cc = (\<lambda>x y. if nrm = 0 then replicate (2 * shift + 1) 0
     else map (\<lambda>k. xcorr_at x y (int k - int shift) / nrm) [0..<2 * shift + 1])"
  have "correlate a b shift = Inr (cc a0 b0)"
    unfolding correlate_unfold [OF ma mb] cc_def a0_def [symmetric] b0_def [symmetric]
      nrm_def [symmetric]
    by (simp only: if_distrib [of Inr, symmetric])
  with ab have cab: "cab = cc a0 b0" by simp
  have ba: "correlate b a shift = Inr (cc b0 a0)"
    unfolding correlate_unfold [OF mb ma] cc_def a0_def [symmetric] b0_def [symmetric] nrm'
    by (simp only: if_distrib [of Inr, symmetric])
  have sym: "cab ! nat (int shift + L) = cc b0 a0 ! nat (int shift - L)"
    if "- int shift \<le> L" "L \<le> int shift" for L
  proof (cases "nrm = 0")
    case True
    have "nat (int shift + L) < 2 * shift + 1" "nat (int shift - L) < 2 * shift + 1"
      using that by auto
    then show ?thesis unfolding cab cc_def using True
      by (simp only: if_True nth_replicate refl)
  next
    case False
    have i1: "nat (int shift + L) < 2 * shift + 1" and i2: "nat (int shift - L) < 2 * shift + 1"
      using that by auto
    have e1: "int (nat (int shift + L)) - int shift = L"
      and e2: "int (nat (int shift - L)) - int shift = - L"
      using that by auto
    have "cab ! nat (int shift + L) = xcorr_at a0 b0 L / nrm"
      unfolding cab cc_def using False i1 e1 by (simp del: upt_Suc)
    moreover have "cc b0 a0 ! nat (int shift - L) = xcorr_at b0 a0 (- L) / nrm"
      unfolding cc_def using False i2 e2 by (simp del: upt_Suc)
    ultimately show ?thesis using xcorr_at_swap [of a0 b0 L] by simp
  qed
  from ba sym correlate_Inr [OF ab] correlate_Inr [OF ba] show ?thesis by blast
qed

theorem cross_correlation_lag_symmetry_witness:
  "correlate [1, 0, -1] [0, 1, -1] 1 = Inr [1 / 2, 1 / 2, - 1 / 2] \<and>
   (\<exists>cba. correlate [0, 1, -1] [1, 0, -1] 1 = Inr cba \<and>
      cba ! 0 = - 1 / 2 \<and> cba ! 1 = 1 / 2 \<and> cba ! 2 = 1 / 2)"
proof -
  have s: "sqrt (4 :: real) = 2" by simp
  have ab: "correlate [1, 0, -1] [0, 1, -1] 1 = Inr [1 / 2, 1 / 2, - 1 / 2]"
    by (simp add: correlate_def np_mean_def sum_squares_def xcorr_at_def at_or_zero_def
        eval_nat_numeral s)
  have len: "length [1, 0, - 1 :: real] = length [0, 1, - 1 :: real]" by simp
  from cross_correlation_lag_symmetry [OF len ab] obtain cba where
    ba: "correlate [0, 1, -1] [1, 0, -1] 1 = Inr cba"
    and sym: "\<forall>L. - int 1 \<le> L \<and> L \<le> int 1 \<longrightarrow>
                [1 / 2, 1 / 2, - 1 / 2 :: real] ! nat (int 1 + L) = cba ! nat (int 1 - L)"
    by blast
  from sym [rule_format, of "-1"] sym [rule_format, of 0] sym [rule_format, of 1]
  have "cba ! 2 = 1 / 2" "cba ! 1 = 1 / 2" "cba ! 0 = - 1 / 2" by (simp_all add: eval_nat_numeral)
  with ab ba show ?thesis by blast
qed

end
